theory Spec2Isabelle
  imports Complex_Main "HOL-Library.AList"
begin

section \<open>Git data structures (gitDataStructures)\<close>

text \<open>
  JavaScript strings are modelled as \<open>string\<close>; a character stands for the UTF-16 code
  unit of the same number (0 to 255), which is what \<open>charCodeAt\<close> reads. A JavaScript
  \<open>Map\<close> is an association list: \<open>Map.set\<close> is \<open>AList.update\<close> (an existing key keeps
  its place, a new key goes to the end, which is the iteration order of \<open>forEach\<close>),
  \<open>Map.get\<close> is \<open>map_of\<close>.
\<close>

subsection \<open>JSON.stringify on the shapes that are hashed\<close>

definition hexchar :: "int \<Rightarrow> char" where
  "hexchar d = (''0123456789abcdef'') ! nat (d mod 16)"

text \<open>\<open>Number.prototype.toString(16)\<close> on a non-negative integer.\<close>

function toString16 :: "int \<Rightarrow> string" where
  "toString16 n = (if n < 16 then [hexchar n] else toString16 (n div 16) @ [hexchar (n mod 16)])"
  by auto
termination
  by (relation "measure nat") auto

declare toString16.simps [simp del]

definition padStart :: "nat \<Rightarrow> char \<Rightarrow> string \<Rightarrow> string" where
  "padStart n c s = replicate (n - length s) c @ s"

text \<open>
  \<open>QuoteJSONString\<close>: the two-character escapes, \<open>\u00xx\<close> for the other control
  characters, every other code unit as it is.
\<close>

definition json_escape_char :: "char \<Rightarrow> string" where
  "json_escape_char c =
     (let n = (of_char c :: int) in
      if n = 8 then [CHR 0x5C, CHR ''b'']
      else if n = 9 then [CHR 0x5C, CHR ''t'']
      else if n = 10 then [CHR 0x5C, CHR ''n'']
      else if n = 12 then [CHR 0x5C, CHR ''f'']
      else if n = 13 then [CHR 0x5C, CHR ''r'']
      else if n = 34 then [CHR 0x5C, CHR 0x22]
      else if n = 92 then [CHR 0x5C, CHR 0x5C]
      else if n < 32 then [CHR 0x5C, CHR ''u''] @ padStart 4 (CHR ''0'') (toString16 n)
      else [c])"

definition json_string :: "string \<Rightarrow> string" where
  "json_string s = [CHR 0x22] @ concat (map json_escape_char s) @ [CHR 0x22]"

text \<open>\<open>Array.prototype.join(',')\<close> on already serialised elements.\<close>

fun join_comma :: "string list \<Rightarrow> string" where
  "join_comma [] = []"
| "join_comma [x] = x"
| "join_comma (x # y # ys) = x @ '','' @ join_comma (y # ys)"

definition json_array :: "string list \<Rightarrow> string" where
  "json_array xs = ''['' @ join_comma xs @ '']''"

definition json_field :: "string \<Rightarrow> string \<Rightarrow> string" where
  "json_field k v = json_string k @ '':'' @ v"

definition json_object :: "(string \<times> string) list \<Rightarrow> string" where
  "json_object kvs = ''{'' @ join_comma (map (\<lambda>(k, v). json_field k v) kvs) @ ''}''"

subsection \<open>GitHash\<close>

text \<open>
  \<open>ToInt32\<close>, which the operators \<open><<\<close> and \<open>&\<close> apply to their operands and result:
  the integer modulo \<open>2 ^ 32\<close>, read as two's complement.
\<close>

definition to_int32 :: "int \<Rightarrow> int" where
  "to_int32 x = (x + 2 ^ 31) mod 2 ^ 32 - 2 ^ 31"

text \<open>
  The loop of \<open>GitHash.generate\<close>: \<open>hash = ((hash << 5) - hash) + char; hash = hash & hash\<close>.
  The subtraction and the addition are exact (the numbers stay far below \<open>2 ^ 53\<close>).
\<close>

definition hash_step :: "int \<Rightarrow> char \<Rightarrow> int" where
  "hash_step h c = to_int32 (to_int32 (h * 2 ^ 5) - h + of_char c)"

definition hash_loop :: "string \<Rightarrow> int" where
  "hash_loop str = foldl hash_step 0 str"

text \<open>
  \<open>Math.abs(hash).toString(16).padStart(40, '0').slice(0, 40)\<close> on the serialised
  content \<open>str = JSON.stringify(content)\<close>.
\<close>

definition GitHash_generate :: "string \<Rightarrow> string" where
  "GitHash_generate str =
     take 40 (padStart 40 (CHR ''0'') (toString16 \<bar>hash_loop str\<bar>))"

subsection \<open>Blob, tree, commit\<close>

record GitBlob =
  blob_content :: string
  blob_hash :: string

record tree_entry =
  entry_mode :: string
  entry_name :: string
  entry_hash :: string
  entry_type :: string

record GitTree =
  tree_entries :: "tree_entry list"
  tree_hash :: string

record GitCommit =
  commit_tree :: string
  commit_parents :: "string list"
  commit_author :: string
  commit_message :: string
  commit_timestamp :: string
  commit_hash :: string

text \<open>The \<open>type\<close> field of an object is the constructor.\<close>

datatype git_object = Blob GitBlob | Tree GitTree | Commit GitCommit

fun object_hash :: "git_object \<Rightarrow> string" where
  "object_hash (Blob b) = blob_hash b"
| "object_hash (Tree t) = tree_hash t"
| "object_hash (Commit c) = commit_hash c"

fun object_type :: "git_object \<Rightarrow> string" where
  "object_type (Blob b) = ''blob''"
| "object_type (Tree t) = ''tree''"
| "object_type (Commit c) = ''commit''"

definition json_blob :: "string \<Rightarrow> string" where
  "json_blob content =
     json_object [(''type'', json_string ''blob''), (''content'', json_string content)]"

definition json_entry :: "tree_entry \<Rightarrow> string" where
  "json_entry e =
     json_object [(''mode'', json_string (entry_mode e)), (''name'', json_string (entry_name e)),
                  (''hash'', json_string (entry_hash e)), (''type'', json_string (entry_type e))]"

definition json_tree :: "tree_entry list \<Rightarrow> string" where
  "json_tree es =
     json_object [(''type'', json_string ''tree''), (''entries'', json_array (map json_entry es))]"

definition json_commit :: "string \<Rightarrow> string list \<Rightarrow> string \<Rightarrow> string \<Rightarrow> string \<Rightarrow> string" where
  "json_commit tree parents author message timestamp =
     json_object [(''type'', json_string ''commit''), (''tree'', json_string tree),
                  (''parents'', json_array (map json_string parents)),
                  (''author'', json_string author), (''message'', json_string message),
                  (''timestamp'', json_string timestamp)]"

definition new_GitBlob :: "string \<Rightarrow> GitBlob" where
  "new_GitBlob content =
     \<lparr>blob_content = content, blob_hash = GitHash_generate (json_blob content)\<rparr>"

definition new_GitTree :: "tree_entry list \<Rightarrow> GitTree" where
  "new_GitTree es = \<lparr>tree_entries = es, tree_hash = GitHash_generate (json_tree es)\<rparr>"

text \<open>\<open>addEntry\<close>: push the entry, recompute the hash from the new entries.\<close>

definition addEntry :: "GitTree \<Rightarrow> string \<Rightarrow> string \<Rightarrow> string \<Rightarrow> string \<Rightarrow> GitTree" where
  "addEntry t mode name hash type =
     (let es = tree_entries t @ [\<lparr>entry_mode = mode, entry_name = name,
                                  entry_hash = hash, entry_type = type\<rparr>]
      in \<lparr>tree_entries = es, tree_hash = GitHash_generate (json_tree es)\<rparr>)"

text \<open>
  The constructor of \<open>GitCommit\<close>. \<open>timestamp || new Date().toISOString()\<close>: the clock
  reading is the parameter \<open>now\<close>, used when the timestamp is missing or empty.
\<close>

definition new_GitCommit ::
  "string \<Rightarrow> string list \<Rightarrow> string \<Rightarrow> string \<Rightarrow> string option \<Rightarrow> string \<Rightarrow> GitCommit" where
  "new_GitCommit tree parents author message timestamp now =
     (let ts = (case timestamp of None \<Rightarrow> now | Some t \<Rightarrow> if t = [] then now else t)
      in \<lparr>commit_tree = tree, commit_parents = parents, commit_author = author,
          commit_message = message, commit_timestamp = ts,
          commit_hash = GitHash_generate (json_commit tree parents author message ts)\<rparr>)"

subsection \<open>GitRepository\<close>

record GitRepository =
  objects :: "(string \<times> git_object) list"
  refs :: "(string \<times> string) list"
  HEAD :: string

definition new_GitRepository :: GitRepository where
  "new_GitRepository = \<lparr>objects = [], refs = [], HEAD = ''main''\<rparr>"

definition storeObject :: "GitRepository \<Rightarrow> git_object \<Rightarrow> string \<times> GitRepository" where
  "storeObject r obj =
     (object_hash obj, r\<lparr>objects := AList.update (object_hash obj) obj (objects r)\<rparr>)"

definition getObject :: "GitRepository \<Rightarrow> string \<Rightarrow> git_object option" where
  "getObject r hash = map_of (objects r) hash"

text \<open>
  \<open>commit\<close>: \<open>parentHash ? [parentHash] : []\<close> takes the branch of a missing entry also
  for the empty string, the only falsy string.
\<close>

definition commit ::
  "GitRepository \<Rightarrow> string \<Rightarrow> string \<Rightarrow> string \<Rightarrow> string \<Rightarrow> GitCommit \<times> GitRepository" where
  "commit r treeHash message author now =
     (let parents = (case map_of (refs r) (HEAD r) of
                       None \<Rightarrow> []
                     | Some parentHash \<Rightarrow> if parentHash = [] then [] else [parentHash]);
          c = new_GitCommit treeHash parents author message None now;
          r1 = snd (storeObject r (Commit c))
      in (c, r1\<lparr>refs := AList.update (HEAD r1) (commit_hash c) (refs r1)\<rparr>))"

definition createBranch :: "GitRepository \<Rightarrow> string \<Rightarrow> string option \<Rightarrow> GitRepository" where
  "createBranch r branchName commitHash =
     (let hash = (case commitHash of
                    None \<Rightarrow> map_of (refs r) (HEAD r)
                  | Some h \<Rightarrow> if h = [] then map_of (refs r) (HEAD r) else Some h)
      in case hash of
           None \<Rightarrow> r
         | Some h \<Rightarrow> if h = [] then r else r\<lparr>refs := AList.update branchName h (refs r)\<rparr>)"

definition checkout :: "GitRepository \<Rightarrow> string \<Rightarrow> bool \<times> GitRepository" where
  "checkout r branchName =
     (if map_of (refs r) branchName \<noteq> None then (True, r\<lparr>HEAD := branchName\<rparr>) else (False, r))"

subsection \<open>getCommitHistory\<close>

text \<open>The test \<open>commit && commit.type === 'commit'\<close> on the result of \<open>getObject\<close>.\<close>

definition as_commit :: "git_object option \<Rightarrow> GitCommit option" where
  "as_commit obj = (case obj of Some (Commit c) \<Rightarrow> Some c | _ \<Rightarrow> None)"

text \<open>
  The inner function \<open>dfs\<close> of \<open>getCommitHistory\<close>, applied to each hash of a list in
  turn (\<open>commit.parents.forEach(parentHash => dfs(parentHash))\<close>); \<open>dfs(hash)\<close> is the
  call on the one-element list. The state is the set \<open>visited\<close> and the array \<open>history\<close>.
\<close>

function gh_dfs ::
  "GitRepository \<Rightarrow> string list \<Rightarrow> string set \<times> git_object list \<Rightarrow> string set \<times> git_object list" where
  "gh_dfs r [] (visited, history) = (visited, history)"
| "gh_dfs r (commitHash # rest) (visited, history) =
     (if commitHash = [] \<or> commitHash \<in> visited then gh_dfs r rest (visited, history)
      else
        (case as_commit (getObject r commitHash) of
           Some c \<Rightarrow>
             gh_dfs r rest (gh_dfs r (commit_parents c) (insert commitHash visited, history @ [Commit c]))
         | None \<Rightarrow> gh_dfs r rest (insert commitHash visited, history)))"
  by pat_completeness auto

lemma gh_dfs_grows:
  "gh_dfs_dom (r, hs, (visited, history)) \<Longrightarrow> visited \<subseteq> fst (gh_dfs r hs (visited, history))"
proof (induction r hs "(visited, history)" arbitrary: visited history rule: gh_dfs.pinduct)
  case (1 r visited history)
  then show ?case by (simp add: gh_dfs.psimps)
next
  case (2 r commitHash rest visited history)
  show ?case
  proof (cases "commitHash = [] \<or> commitHash \<in> visited")
    case True
    with 2 show ?thesis by (simp add: gh_dfs.psimps)
  next
    case False
    show ?thesis
    proof (cases "as_commit (getObject r commitHash)")
      case (Some c)
      obtain v1 h1 where inner:
        "gh_dfs r (commit_parents c) (insert commitHash visited, history @ [Commit c]) = (v1, h1)"
        by (metis prod.exhaust)
      from "2.hyps"(4) [OF False Some] inner have "insert commitHash visited \<subseteq> v1" by simp
      moreover from "2.hyps"(5) [OF False Some inner] have "v1 \<subseteq> fst (gh_dfs r rest (v1, h1))" .
      ultimately show ?thesis using False Some inner "2.hyps"(1) by (auto simp: gh_dfs.psimps)
    next
      case None
      from "2.hyps"(3) [OF False None]
      show ?thesis using False None "2.hyps"(1) by (auto simp: gh_dfs.psimps)
    qed
  qed
qed

lemma as_commit_dom: "as_commit (getObject r h) = Some c \<Longrightarrow> h \<in> fst ` set (objects r)"
  by (auto simp: as_commit_def getObject_def split: option.splits git_object.splits
      dest!: map_of_SomeD intro: rev_image_eqI)

termination gh_dfs
proof (relation "inv_image (finite_psubset <*lex*> less_than)
    (\<lambda>(r, hs, (visited, history)). (fst ` set (objects r) - visited, length hs))", goal_cases)
  case 1
  show ?case by (intro wf_inv_image wf_lex_prod wf_finite_psubset wf_less_than)
next
  case (2 r commitHash rest visited history)
  show ?case by simp
next
  case (3 r commitHash rest visited history)
  have "fst ` set (objects r) - insert commitHash visited \<subset> fst ` set (objects r) - visited
    \<or> fst ` set (objects r) - insert commitHash visited = fst ` set (objects r) - visited" by blast
  then show ?case by (auto simp: finite_psubset_def)
next
  case (4 r commitHash rest visited history c)
  then have "commitHash \<in> fst ` set (objects r) - visited" by (simp add: as_commit_dom)
  then have "fst ` set (objects r) - insert commitHash visited \<subset> fst ` set (objects r) - visited"
    by blast
  then show ?case by (simp add: finite_psubset_def)
next
  case (5 r commitHash rest visited history c)
  obtain v1 h1 where inner:
    "gh_dfs r (commit_parents c) (insert commitHash visited, history @ [Commit c]) = (v1, h1)"
    by (metis prod.exhaust)
  from gh_dfs_grows [OF 5(3)] inner have "insert commitHash visited \<subseteq> v1" by simp
  moreover from 5 have "commitHash \<in> fst ` set (objects r) - visited" by (simp add: as_commit_dom)
  ultimately have "fst ` set (objects r) - v1 \<subset> fst ` set (objects r) - visited" by blast
  then show ?case using inner by (simp add: finite_psubset_def)
qed

declare gh_dfs.simps [simp del]

text \<open>\<open>startHash || this.refs.get(this.HEAD)\<close>: the hash the traversal starts from.\<close>

definition gh_start :: "GitRepository \<Rightarrow> string option \<Rightarrow> string option" where
  "gh_start r startHash =
     (case startHash of
        None \<Rightarrow> map_of (refs r) (HEAD r)
      | Some h \<Rightarrow> if h = [] then map_of (refs r) (HEAD r) else Some h)"

text \<open>\<open>if (!hash) return []\<close>, then \<open>dfs(hash)\<close> from the empty state.\<close>

definition getCommitHistory :: "GitRepository \<Rightarrow> string option \<Rightarrow> git_object list" where
  "getCommitHistory r startHash =
     (case gh_start r startHash of
        None \<Rightarrow> []
      | Some hash \<Rightarrow> if hash = [] then [] else snd (gh_dfs r [hash] ({}, [])))"

subsection \<open>findMergeBase\<close>

text \<open>The inner function \<open>traverse\<close>, on a list of hashes as \<open>gh_dfs\<close> is.\<close>

function traverse :: "GitRepository \<Rightarrow> string list \<Rightarrow> string set \<Rightarrow> string set" where
  "traverse r [] ancestors1 = ancestors1"
| "traverse r (hash # rest) ancestors1 =
     (if hash = [] \<or> hash \<in> ancestors1 then traverse r rest ancestors1
      else
        (case as_commit (getObject r hash) of
           Some c \<Rightarrow> traverse r rest (traverse r (commit_parents c) (insert hash ancestors1))
         | None \<Rightarrow> traverse r rest (insert hash ancestors1)))"
  by pat_completeness auto

lemma traverse_grows:
  "traverse_dom (r, hs, ancestors1) \<Longrightarrow> ancestors1 \<subseteq> traverse r hs ancestors1"
proof (induction r hs ancestors1 rule: traverse.pinduct)
  case (1 r ancestors1)
  then show ?case by (simp add: traverse.psimps)
next
  case (2 r hash rest ancestors1)
  show ?case
  proof (cases "hash = [] \<or> hash \<in> ancestors1")
    case True
    with 2 show ?thesis by (simp add: traverse.psimps)
  next
    case False
    show ?thesis
    proof (cases "as_commit (getObject r hash)")
      case (Some c)
      from "2.IH"(3) [OF False Some] "2.IH"(4) [OF False Some]
      show ?thesis using False Some "2.hyps"(1) by (auto simp: traverse.psimps)
    next
      case None
      from "2.IH"(2) [OF False None]
      show ?thesis using False None "2.hyps"(1) by (auto simp: traverse.psimps)
    qed
  qed
qed

termination traverse
proof (relation "inv_image (finite_psubset <*lex*> less_than)
    (\<lambda>(r, hs, ancestors1). (fst ` set (objects r) - ancestors1, length hs))", goal_cases)
  case 1
  show ?case by (intro wf_inv_image wf_lex_prod wf_finite_psubset wf_less_than)
next
  case (2 r hash rest ancestors1)
  show ?case by simp
next
  case (3 r hash rest ancestors1)
  have "fst ` set (objects r) - insert hash ancestors1 \<subset> fst ` set (objects r) - ancestors1
    \<or> fst ` set (objects r) - insert hash ancestors1 = fst ` set (objects r) - ancestors1" by blast
  then show ?case by (auto simp: finite_psubset_def)
next
  case (4 r hash rest ancestors1 c)
  then have "hash \<in> fst ` set (objects r) - ancestors1" by (simp add: as_commit_dom)
  then have "fst ` set (objects r) - insert hash ancestors1 \<subset> fst ` set (objects r) - ancestors1"
    by blast
  then show ?case by (simp add: finite_psubset_def)
next
  case (5 r hash rest ancestors1 c)
  from traverse_grows [OF 5(3)]
  have "insert hash ancestors1 \<subseteq> traverse r (commit_parents c) (insert hash ancestors1)" .
  moreover from 5 have "hash \<in> fst ` set (objects r) - ancestors1" by (simp add: as_commit_dom)
  ultimately have "fst ` set (objects r) - traverse r (commit_parents c) (insert hash ancestors1)
      \<subset> fst ` set (objects r) - ancestors1" by blast
  then show ?case by (simp add: finite_psubset_def)
qed

declare traverse.simps [simp del]

text \<open>
  The inner function \<open>findCommon\<close>, which keeps no visited set: on a store with a cycle
  of parents it may call itself for ever, so it is a partial function, and \<open>None\<close> is
  "does not return"; \<open>Some None\<close> is the result \<open>null\<close>. \<open>findCommons\<close> on a list is the
  loop \<open>for (const parent of commit.parents)\<close>, which returns the first result that is
  not \<open>null\<close>; \<open>findCommon(hash)\<close> is the call on the one-element list.
\<close>

partial_function (option) findCommons ::
  "GitRepository \<Rightarrow> string set \<Rightarrow> string list \<Rightarrow> string option option" where
  "findCommons r ancestors1 hs =
     (case hs of
        [] \<Rightarrow> Some None
      | hash # rest \<Rightarrow>
          Option.bind
            (if hash = [] then Some None
             else if hash \<in> ancestors1 then Some (Some hash)
             else (case as_commit (getObject r hash) of
                     Some c \<Rightarrow> findCommons r ancestors1 (commit_parents c)
                   | None \<Rightarrow> Some None))
            (\<lambda>common. case common of
                         Some h \<Rightarrow> Some (Some h)
                       | None \<Rightarrow> findCommons r ancestors1 rest))"

declare findCommons.simps [code]

definition findMergeBase :: "GitRepository \<Rightarrow> string \<Rightarrow> string \<Rightarrow> string option option" where
  "findMergeBase r branch1 branch2 =
     (case (map_of (refs r) branch1, map_of (refs r) branch2) of
        (Some hash1, Some hash2) \<Rightarrow>
          if hash1 = [] \<or> hash2 = [] then Some None
          else findCommons r (traverse r [hash1] {}) [hash2]
      | _ \<Rightarrow> Some None)"

section \<open>Graph algorithms (graphAlgorithms)\<close>

text \<open>
  The nodes and edges that \<open>getCommitGraph\<close> produces. \<open>calculateLayout\<close> writes the
  coordinates \<open>x\<close> and \<open>y\<close> into the node objects; a node never laid out has none.
\<close>

record graph_node =
  node_id :: string
  node_hash :: string
  node_message :: string
  node_author :: string
  node_timestamp :: string
  node_parents :: "string list"
  node_x :: "real option"
  node_y :: "real option"

record graph_edge =
  edge_from :: string
  edge_to :: string











text \<open>\<open>graph.get(k) || []\<close>\<close>

definition neighbors_of :: "(string \<times> string list) list \<Rightarrow> string \<Rightarrow> string list" where
  "neighbors_of graph k = (case map_of graph k of None \<Rightarrow> [] | Some ns \<Rightarrow> ns)"

text \<open>
  \<open>graph.get(k).push(v)\<close>: the array stored under \<open>k\<close> grows in place. Every call site
  has made sure that the key is there.
\<close>

definition push_neighbor ::
  "(string \<times> string list) list \<Rightarrow> string \<Rightarrow> string \<Rightarrow> (string \<times> string list) list" where
  "push_neighbor graph k v =
     (case map_of graph k of None \<Rightarrow> graph | Some ns \<Rightarrow> AList.update k (ns @ [v]) graph)"

subsection \<open>findShortestPath\<close>

definition fsp_add_edge ::
  "(string \<times> string list) list \<Rightarrow> graph_edge \<Rightarrow> (string \<times> string list) list" where
  "fsp_add_edge graph edge =
     (let g1 = (if map_of graph (edge_from edge) = None then AList.update (edge_from edge) [] graph
                else graph);
          g2 = (if map_of g1 (edge_to edge) = None then AList.update (edge_to edge) [] g1 else g1);
          g3 = push_neighbor g2 (edge_from edge) (edge_to edge)
      in push_neighbor g3 (edge_to edge) (edge_from edge))"

definition fsp_visit ::
  "string list \<Rightarrow> string set \<times> string list list \<Rightarrow> string \<Rightarrow> string set \<times> string list list" where
  "fsp_visit path = (\<lambda>(visited, queue) neighbor.
     if neighbor \<notin> visited then (insert neighbor visited, queue @ [path @ [neighbor]])
     else (visited, queue))"

definition fsp_universe :: "(string \<times> string list) list \<Rightarrow> string set" where
  "fsp_universe graph = (\<Union>(k, ns) \<in> set graph. set ns)"

lemma finite_fsp_universe: "finite (fsp_universe graph)"
  by (auto simp: fsp_universe_def)

lemma neighbors_of_universe: "set (neighbors_of graph k) \<subseteq> fsp_universe graph"
proof (cases "map_of graph k")
  case None
  then show ?thesis by (simp add: neighbors_of_def)
next
  case (Some ns)
  then have "(k, ns) \<in> set graph" by (rule map_of_SomeD)
  then show ?thesis using Some by (auto simp: neighbors_of_def fsp_universe_def)
qed

lemma fsp_visit_fold_measure:
  "set ns \<subseteq> U \<Longrightarrow> finite U \<Longrightarrow> foldl (fsp_visit path) (visited, queue) ns = (visited', queue') \<Longrightarrow>
   length queue' + card (U - visited') = length queue + card (U - visited)"
proof (induction ns arbitrary: visited queue)
  case Nil
  then show ?case by simp
next
  case (Cons n ns)
  show ?case
  proof (cases "n \<in> visited")
    case True
    with Cons.prems have "foldl (fsp_visit path) (visited, queue) ns = (visited', queue')"
      by (simp add: fsp_visit_def)
    with Cons show ?thesis by simp
  next
    case False
    with Cons.prems have "foldl (fsp_visit path) (insert n visited, queue @ [path @ [n]]) ns = (visited', queue')"
      by (simp add: fsp_visit_def)
    with Cons have "length queue' + card (U - visited') = length (queue @ [path @ [n]]) + card (U - insert n visited)"
      by simp
    moreover have "n \<in> U - visited" using False Cons.prems by simp
    then have "card (U - visited) = Suc (card (U - insert n visited))"
      using \<open>finite U\<close>
      by (metis Diff_insert card.remove finite_Diff)
    ultimately show ?thesis by simp
  qed
qed

function bfs_loop ::
  "(string \<times> string list) list \<Rightarrow> string \<Rightarrow> string list list \<Rightarrow> string set \<Rightarrow> string list option" where
  "bfs_loop graph endId [] visited = None"
| "bfs_loop graph endId ([] # queue) visited = bfs_loop graph endId queue visited"
| "bfs_loop graph endId ((v # vs) # queue) visited =
     (let path = v # vs; node = last path in
      if node = endId then Some path
      else
        let neighbors = neighbors_of graph node;
            (visited', queue') = foldl (fsp_visit path) (visited, queue) neighbors
        in bfs_loop graph endId queue' visited')"
  by pat_completeness auto
termination
proof (relation "measure (\<lambda>(graph, endId, queue, visited). length queue + card (fsp_universe graph - visited))")
  show "wf (measure (\<lambda>(graph, endId, queue, visited). length queue + card (fsp_universe graph - visited)))"
    by simp
next
  fix graph :: "(string \<times> string list) list" and endId queue visited
  show "((graph, endId, queue, visited), (graph, endId, [] # queue, visited))
        \<in> measure (\<lambda>(graph, endId, queue, visited). length queue + card (fsp_universe graph - visited))"
    by simp
next
  fix graph :: "(string \<times> string list) list" and endId v vs queue visited path node neighbors x visited' queue'
  assume "path = v # vs" "neighbors = neighbors_of graph node"
    "x = foldl (fsp_visit path) (visited, queue) neighbors" "(visited', queue') = x"
  then have "foldl (fsp_visit path) (visited, queue) (neighbors_of graph node) = (visited', queue')"
    by simp
  from fsp_visit_fold_measure [OF neighbors_of_universe finite_fsp_universe this]
  show "((graph, endId, queue', visited'), (graph, endId, (v # vs) # queue, visited))
        \<in> measure (\<lambda>(graph, endId, queue, visited). length queue + card (fsp_universe graph - visited))"
    by simp
qed

declare bfs_loop.simps [simp del]

definition findShortestPath :: "string \<Rightarrow> string \<Rightarrow> graph_edge list \<Rightarrow> string list option" where
  "findShortestPath startId endId edges =
     (if startId = endId then Some [startId]
      else bfs_loop (foldl fsp_add_edge [] edges) endId [[startId]] {startId})"

subsection \<open>detectCycle\<close>

definition dc_graph :: "graph_node list \<Rightarrow> graph_edge list \<Rightarrow> (string \<times> string list) list" where
  "dc_graph nodes edges =
     foldl (\<lambda>graph edge. push_neighbor graph (edge_from edge) (edge_to edge))
       (foldl (\<lambda>graph node. AList.update (node_id node) [] graph) [] nodes) edges"

function dc_loop ::
  "(string \<times> string list) list \<Rightarrow> string \<Rightarrow> string list \<Rightarrow> string set \<times> string set
     \<Rightarrow> bool \<times> (string set \<times> string set)" where
  "dc_loop graph nodeId [] (visiting, visited) =
     (False, (visiting - {nodeId}, insert nodeId visited))"
| "dc_loop graph nodeId (neighbor # rest) (visiting, visited) =
     (if neighbor \<in> visiting then (True, (visiting, visited))
      else if neighbor \<notin> visited then
        (case dc_loop graph neighbor (neighbors_of graph neighbor) (insert neighbor visiting, visited) of
           (True, st) \<Rightarrow> (True, st)
         | (False, st) \<Rightarrow> dc_loop graph nodeId rest st)
      else dc_loop graph nodeId rest (visiting, visited))"
  by pat_completeness auto

lemma dc_loop_grows:
  "dc_loop_dom (graph, nodeId, ns, (visiting, visited)) \<Longrightarrow>
   dc_loop graph nodeId ns (visiting, visited) = (b, (visiting', visited')) \<Longrightarrow>
   visiting \<union> visited \<subseteq> visiting' \<union> visited'"
proof (induction graph nodeId ns "(visiting, visited)" arbitrary: visiting visited b visiting' visited' rule: dc_loop.pinduct)
  case (1 graph nodeId visiting visited)
  then show ?case by (auto simp: dc_loop.psimps)
next
  case (2 graph nodeId neighbor rest visiting visited)
  show ?case
  proof (cases "neighbor \<in> visiting")
    case True
    with 2 show ?thesis by (auto simp: dc_loop.psimps)
  next
    case nv: False
    show ?thesis
    proof (cases "neighbor \<in> visited")
      case True
      with nv 2 show ?thesis by (auto simp: dc_loop.psimps)
    next
      case False
      obtain b1 vg1 vd1 where inner:
        "dc_loop graph neighbor (neighbors_of graph neighbor) (insert neighbor visiting, visited) = (b1, (vg1, vd1))"
        by (metis prod.exhaust)
      from "2.hyps"(2) [OF nv False inner] have g1: "insert neighbor visiting \<union> visited \<subseteq> vg1 \<union> vd1" by simp
      show ?thesis
      proof (cases b1)
        case True
        with nv False inner "2.hyps"(1) "2.prems" g1 show ?thesis
          by (auto simp: dc_loop.psimps)
      next
        case b1f: False
        with nv False inner "2.hyps"(1) "2.prems"
        have "dc_loop graph nodeId rest (vg1, vd1) = (b, (visiting', visited'))"
          by (simp add: dc_loop.psimps)
        moreover from b1f have "b1 = False" by simp
        ultimately have "vg1 \<union> vd1 \<subseteq> visiting' \<union> visited'"
          using "2.hyps"(3) [OF nv False inner [symmetric]] by blast
        with g1 show ?thesis by blast
      qed
    qed
  qed
qed

termination dc_loop
proof (relation "inv_image (finite_psubset <*lex*> less_than)
    (\<lambda>(graph, nodeId, ns, (visiting, visited)).
       ((fsp_universe graph \<union> set ns) - (visiting \<union> visited), length ns))", goal_cases)
  case 1
  show ?case by (intro wf_inv_image wf_lex_prod wf_finite_psubset wf_less_than)
next
  case (2 graph nodeId neighbor rest visiting visited)
  have "neighbor \<in> (fsp_universe graph \<union> set (neighbor # rest)) - (visiting \<union> visited)"
    using 2 by simp
  moreover have "(fsp_universe graph \<union> set (neighbors_of graph neighbor)) - (insert neighbor visiting \<union> visited)
      \<subseteq> (fsp_universe graph \<union> set (neighbor # rest)) - (visiting \<union> visited)"
    using neighbors_of_universe [of graph neighbor] by auto
  ultimately have "(fsp_universe graph \<union> set (neighbors_of graph neighbor)) - (insert neighbor visiting \<union> visited)
      \<subset> (fsp_universe graph \<union> set (neighbor # rest)) - (visiting \<union> visited)"
    by blast
  then show ?case by (simp add: finite_psubset_def finite_fsp_universe)
next
  case (3 graph nodeId neighbor rest visiting visited x y)
  obtain vg vd where y: "y = (vg, vd)" by (cases y)
  from 3 y have "dc_loop graph neighbor (neighbors_of graph neighbor) (insert neighbor visiting, visited) = (False, (vg, vd))"
    by simp
  from dc_loop_grows [OF 3(5) this] have "insert neighbor visiting \<union> visited \<subseteq> vg \<union> vd" .
  then have "(fsp_universe graph \<union> set rest) - (vg \<union> vd)
      \<subset> (fsp_universe graph \<union> set (neighbor # rest)) - (visiting \<union> visited)"
    using 3(1,2) by auto
  then show ?case using y by (simp add: finite_psubset_def finite_fsp_universe)
next
  case (4 graph nodeId neighbor rest visiting visited)
  then have "(fsp_universe graph \<union> set rest) - (visiting \<union> visited)
      = (fsp_universe graph \<union> set (neighbor # rest)) - (visiting \<union> visited)"
    by auto
  then show ?case by simp
qed

declare dc_loop.simps [simp del]

definition dc_dfs ::
  "(string \<times> string list) list \<Rightarrow> string \<Rightarrow> string set \<times> string set \<Rightarrow> bool \<times> (string set \<times> string set)" where
  "dc_dfs graph nodeId = (\<lambda>(visiting, visited).
     dc_loop graph nodeId (neighbors_of graph nodeId) (insert nodeId visiting, visited))"

fun dc_main ::
  "(string \<times> string list) list \<Rightarrow> graph_node list \<Rightarrow> string set \<times> string set \<Rightarrow> bool" where
  "dc_main graph [] st = False"
| "dc_main graph (node # nodes) (visiting, visited) =
     (if node_id node \<notin> visited then
        (case dc_dfs graph (node_id node) (visiting, visited) of
           (True, st) \<Rightarrow> True
         | (False, st) \<Rightarrow> dc_main graph nodes st)
      else dc_main graph nodes (visiting, visited))"

definition detectCycle :: "graph_node list \<Rightarrow> graph_edge list \<Rightarrow> bool" where
  "detectCycle nodes edges = dc_main (dc_graph nodes edges) nodes ({}, {})"

subsection \<open>calculateLayout\<close>










section \<open>The commit graph handed to the graph algorithms\<close>

text \<open>
  \<open>getCommitGraph\<close>. The JavaScript \<open>Set\<close> \<open>allCommits\<close> is a list without repetition in
  insertion order. The second loop looks each collected hash up again; an object that is
  there and is not a commit has no \<open>parents\<close>, and \<open>commit.parents.forEach\<close> throws.
\<close>

datatype js_error = TypeError

record commit_graph =
  graph_nodes :: "graph_node list"
  graph_edges :: "graph_edge list"
  graph_branches :: "(string \<times> string) list"
  graph_HEAD :: string

definition set_add :: "'a list \<Rightarrow> 'a \<Rightarrow> 'a list" where
  "set_add xs x = (if x \<in> set xs then xs else xs @ [x])"

definition gcg_collect :: "GitRepository \<Rightarrow> string list" where
  "gcg_collect r =
     foldl (\<lambda>allCommits (branch, hash).
              foldl (\<lambda>acc obj. set_add acc (object_hash obj)) allCommits
                (getCommitHistory r (Some hash)))
       [] (refs r)"

definition gcg_node :: "GitCommit \<Rightarrow> graph_node" where
  "gcg_node c =
     \<lparr>node_id = commit_hash c, node_hash = take 7 (commit_hash c),
      node_message = commit_message c, node_author = commit_author c,
      node_timestamp = commit_timestamp c, node_parents = commit_parents c,
      node_x = None, node_y = None\<rparr>"

fun gcg_build ::
  "GitRepository \<Rightarrow> string list \<Rightarrow> graph_node list \<times> graph_edge list
     \<Rightarrow> js_error + graph_node list \<times> graph_edge list" where
  "gcg_build r [] (nodes, edges) = Inr (nodes, edges)"
| "gcg_build r (hash # rest) (nodes, edges) =
     (case getObject r hash of
        None \<Rightarrow> gcg_build r rest (nodes, edges)
      | Some (Commit c) \<Rightarrow>
          gcg_build r rest
            (nodes @ [gcg_node c],
             edges @ map (\<lambda>parentHash. \<lparr>edge_from = commit_hash c, edge_to = parentHash\<rparr>)
                       (commit_parents c))
      | Some _ \<Rightarrow> Inl TypeError)"

definition getCommitGraph :: "GitRepository \<Rightarrow> js_error + commit_graph" where
  "getCommitGraph r =
     (case gcg_build r (gcg_collect r) ([], []) of
        Inl e \<Rightarrow> Inl e
      | Inr (nodes, edges) \<Rightarrow>
          Inr \<lparr>graph_nodes = nodes, graph_edges = edges,
               graph_branches = foldl (\<lambda>branches (branch, hash). AList.update branch hash branches)
                                  [] (refs r),
               graph_HEAD = HEAD r\<rparr>)"

section \<open>Histories of operations and the cycle check on the snapshot\<close>

text \<open>
  The three operations that change a repository, and a run of them from the freshly
  constructed repository.
\<close>

datatype repo_op =
    Commit_op string string string string
  | CreateBranch_op string "string option"
  | Checkout_op string

fun apply_op :: "GitRepository \<Rightarrow> repo_op \<Rightarrow> GitRepository" where
  "apply_op r (Commit_op treeHash message author now) = snd (commit r treeHash message author now)"
| "apply_op r (CreateBranch_op branchName commitHash) = createBranch r branchName commitHash"
| "apply_op r (Checkout_op branchName) = snd (checkout r branchName)"

definition run_ops :: "repo_op list \<Rightarrow> GitRepository" where
  "run_ops ops = foldl apply_op new_GitRepository ops"

text \<open>
  A fingerprint is fresh in a repository when it occurs nowhere in it: not as a key of
  the object store, not in the parents of a stored commit, not as a value of the ref
  table. A run is fresh when the hash of every commit it makes is fresh in the
  repository the commit is made in.
\<close>

definition stored_parents :: "GitRepository \<Rightarrow> string list" where
  "stored_parents r =
     concat (map (\<lambda>(k, obj). case obj of Commit c \<Rightarrow> commit_parents c | _ \<Rightarrow> []) (objects r))"

definition fresh_hash :: "GitRepository \<Rightarrow> string \<Rightarrow> bool" where
  "fresh_hash r k =
     (k \<notin> set (map fst (objects r)) \<and> k \<notin> set (stored_parents r) \<and> k \<notin> set (map snd (refs r)))"

fun fresh_ops :: "GitRepository \<Rightarrow> repo_op list \<Rightarrow> bool" where
  "fresh_ops r [] = True"
| "fresh_ops r (Commit_op treeHash message author now # ops) =
     (fresh_hash r (commit_hash (fst (commit r treeHash message author now)))
      \<and> fresh_ops (snd (commit r treeHash message author now)) ops)"
| "fresh_ops r (op # ops) = fresh_ops (apply_op r op) ops"

text \<open>
  The cycle check as the algorithm panel runs it:
  \<open>detectCycle(graphData.nodes, graphData.edges)\<close> on the snapshot of the repository.
\<close>

definition runCycleDetection :: "GitRepository \<Rightarrow> js_error + bool" where
  "runCycleDetection r =
     (case getCommitGraph r of
        Inl e \<Rightarrow> Inl e
      | Inr g \<Rightarrow> Inr (detectCycle (graph_nodes g) (graph_edges g)))"

section \<open>Properties of the repository operations\<close>

subsection \<open>The fingerprint\<close>

lemma length_GitHash_generate: "length (GitHash_generate s) = 40"
  by (simp add: GitHash_generate_def padStart_def)

lemma GitHash_generate_nonempty: "GitHash_generate s \<noteq> []"
  using length_GitHash_generate [of s] by auto

text \<open>
  Reading a fingerprint back: \<open>from_hex\<close> inverts \<open>toString16\<close> and ignores the padding,
  so two fingerprints are equal exactly when the absolute values of the 32-bit hashes are.
\<close>

definition hexval :: "char \<Rightarrow> int" where
  "hexval c = (if of_char c < (58::int) then of_char c - 48 else of_char c - 87)"

definition from_hex :: "string \<Rightarrow> int" where
  "from_hex s = foldl (\<lambda>a c. 16 * a + hexval c) 0 s"

lemma hexval_hexchar: "0 \<le> d \<Longrightarrow> d < 16 \<Longrightarrow> hexval (hexchar d) = d"
proof -
  assume "0 \<le> d" "d < 16"
  then have "d = 0 \<or> d = 1 \<or> d = 2 \<or> d = 3 \<or> d = 4 \<or> d = 5 \<or> d = 6 \<or> d = 7
      \<or> d = 8 \<or> d = 9 \<or> d = 10 \<or> d = 11 \<or> d = 12 \<or> d = 13 \<or> d = 14 \<or> d = 15"
    by arith
  then show ?thesis
    by (auto simp: hexval_def hexchar_def)
qed

lemma from_hex_snoc: "from_hex (s @ [c]) = 16 * from_hex s + hexval c"
  by (simp add: from_hex_def)

lemma from_hex_toString16: "0 \<le> n \<Longrightarrow> from_hex (toString16 n) = n"
proof (induction n rule: toString16.induct)
  case (1 n)
  show ?case
  proof (cases "n < 16")
    case True
    with 1 show ?thesis
      by (subst toString16.simps) (simp add: from_hex_def hexval_hexchar)
  next
    case False
    with 1 have "from_hex (toString16 (n div 16)) = n div 16" by simp
    moreover have "hexval (hexchar (n mod 16)) = n mod 16"
      by (simp add: hexval_hexchar)
    ultimately show ?thesis using False
      by (subst toString16.simps) (simp add: from_hex_snoc)
  qed
qed

lemma from_hex_zeros: "from_hex (replicate k (CHR ''0'') @ s) = from_hex s"
proof -
  have "foldl (\<lambda>a c. 16 * a + hexval c) 0 (replicate k (CHR ''0'')) = 0"
    by (induction k) (simp_all add: hexval_def)
  then show ?thesis by (simp add: from_hex_def)
qed

lemma length_toString16: "0 \<le> n \<Longrightarrow> n < 16 ^ Suc k \<Longrightarrow> length (toString16 n) \<le> Suc k"
proof (induction k arbitrary: n)
  case 0
  then show ?case by (subst toString16.simps) simp
next
  case (Suc k)
  show ?case
  proof (cases "n < 16")
    case True
    then show ?thesis by (subst toString16.simps) simp
  next
    case False
    have "n < 16 * 16 ^ Suc k" using Suc.prems by simp
    then have "n div 16 < 16 ^ Suc k" by linarith
    moreover have "0 \<le> n div 16" using Suc.prems by simp
    ultimately have "length (toString16 (n div 16)) \<le> Suc k" by (rule Suc.IH[rotated])
    then show ?thesis using False by (subst toString16.simps) simp
  qed
qed

lemma to_int32_range: "- (2 ^ 31) \<le> to_int32 x \<and> to_int32 x < 2 ^ 31"
  by (simp add: to_int32_def)

lemma hash_loop_range: "- (2 ^ 31) \<le> hash_loop s \<and> hash_loop s < 2 ^ 31"
proof (induction s rule: rev_induct)
  case Nil
  then show ?case by (simp add: hash_loop_def)
next
  case (snoc c s)
  show ?case using to_int32_range by (simp add: hash_loop_def hash_step_def)
qed

lemma from_hex_GitHash_generate: "from_hex (GitHash_generate s) = \<bar>hash_loop s\<bar>"
proof -
  let ?n = "\<bar>hash_loop s\<bar>"
  have "?n < 16 ^ Suc 7" using hash_loop_range [of s] by (simp add: abs_if)
  then have "length (toString16 ?n) \<le> 40" using length_toString16 [of ?n 7] by simp
  then have "GitHash_generate s = replicate (40 - length (toString16 ?n)) (CHR ''0'') @ toString16 ?n"
    by (simp add: GitHash_generate_def padStart_def)
  then show ?thesis by (simp add: from_hex_zeros from_hex_toString16)
qed

lemma GitHash_generate_eq_iff:
  "GitHash_generate s = GitHash_generate s' \<longleftrightarrow> \<bar>hash_loop s\<bar> = \<bar>hash_loop s'\<bar>"
proof
  assume "GitHash_generate s = GitHash_generate s'"
  then have "from_hex (GitHash_generate s) = from_hex (GitHash_generate s')" by simp
  then show "\<bar>hash_loop s\<bar> = \<bar>hash_loop s'\<bar>" by (simp add: from_hex_GitHash_generate)
next
  assume "\<bar>hash_loop s\<bar> = \<bar>hash_loop s'\<bar>"
  then show "GitHash_generate s = GitHash_generate s'" by (simp add: GitHash_generate_def)
qed

subsection \<open>Trees\<close>

text \<open>
  C5 (as amended). \<open>addEntry\<close> appends the entry to the entries and sets the hash to the
  fingerprint of the new entries. For a tree whose hash is the fingerprint of its entries
  (every tree made by the constructor and \<open>addEntry\<close>), the new hash differs from the old
  one exactly when the two serialisations have 32-bit hashes of different absolute value.
\<close>

theorem addEntry_spec:
  "tree_entries (addEntry t mode name hash type) =
     tree_entries t @ [\<lparr>entry_mode = mode, entry_name = name, entry_hash = hash, entry_type = type\<rparr>]
   \<and> tree_hash (addEntry t mode name hash type) =
       GitHash_generate (json_tree (tree_entries (addEntry t mode name hash type)))
   \<and> (tree_hash t = GitHash_generate (json_tree (tree_entries t)) \<longrightarrow>
        (tree_hash (addEntry t mode name hash type) \<noteq> tree_hash t) =
        (\<bar>hash_loop (json_tree (tree_entries (addEntry t mode name hash type)))\<bar>
           \<noteq> \<bar>hash_loop (json_tree (tree_entries t))\<bar>))"
  by (simp add: addEntry_def Let_def GitHash_generate_eq_iff)

theorem addEntry_spec_witness:
  "tree_hash (new_GitTree []) = GitHash_generate (json_tree (tree_entries (new_GitTree [])))
   \<and> tree_entries (addEntry (new_GitTree []) ''100644'' ''README.md'' ''h'' ''blob'') =
       [\<lparr>entry_mode = ''100644'', entry_name = ''README.md'', entry_hash = ''h'', entry_type = ''blob''\<rparr>]
   \<and> tree_hash (addEntry (new_GitTree []) ''100644'' ''README.md'' ''h'' ''blob'')
       \<noteq> tree_hash (new_GitTree [])"
proof -
  let ?t = "new_GitTree []"
  let ?t' = "addEntry ?t ''100644'' ''README.md'' ''h'' ''blob''"
  note spec = addEntry_spec [of ?t "''100644''" "''README.md''" "''h''" "''blob''"]
  have a: "tree_hash ?t = GitHash_generate (json_tree (tree_entries ?t))"
    by (simp add: new_GitTree_def)
  have b: "\<bar>hash_loop (json_tree (tree_entries ?t'))\<bar> \<noteq> \<bar>hash_loop (json_tree (tree_entries ?t))\<bar>"
    by code_simp
  have c: "tree_entries ?t = []"
    by (simp add: new_GitTree_def)
  from spec a have "(tree_hash ?t' \<noteq> tree_hash ?t) =
      (\<bar>hash_loop (json_tree (tree_entries ?t'))\<bar> \<noteq> \<bar>hash_loop (json_tree (tree_entries ?t))\<bar>)"
    by blast
  with b have d: "tree_hash ?t' \<noteq> tree_hash ?t" by blast
  from spec c have e: "tree_entries ?t' =
      [\<lparr>entry_mode = ''100644'', entry_name = ''README.md'', entry_hash = ''h'', entry_type = ''blob''\<rparr>]"
    by simp
  from a d e show ?thesis by blast
qed

text \<open>
  C5 as stated fails: appending the entry below to the empty tree changes the
  entries and leaves the hash as it was, since the fingerprint has only 32 bits.
\<close>

theorem addEntry_hash_counterexample:
  "tree_entries (addEntry (new_GitTree []) ''100644'' ''apjaqnya.txt''
       (blob_hash (new_GitBlob ''hello'')) ''blob'') \<noteq> tree_entries (new_GitTree [])
   \<and> tree_hash (addEntry (new_GitTree []) ''100644'' ''apjaqnya.txt''
       (blob_hash (new_GitBlob ''hello'')) ''blob'') = tree_hash (new_GitTree [])"
  by code_simp

subsection \<open>commit, createBranch, checkout\<close>

lemma commit_parents_new [simp]: "commit_parents (new_GitCommit t ps a m ts now) = ps"
  by (simp add: new_GitCommit_def Let_def)

lemma commit_hash_new_nonempty [simp]: "commit_hash (new_GitCommit t ps a m ts now) \<noteq> []"
  by (simp add: new_GitCommit_def Let_def GitHash_generate_nonempty)

text \<open>
  C3. \<open>commit\<close> builds a commit whose parents are the one-element list of the hash that
  the ref table holds for \<open>HEAD\<close> (a fingerprint is never the empty string, which the
  code's truth test treats as a missing entry), and no parents otherwise; the commit is
  stored under its hash, and the entry of \<open>HEAD\<close> is set to that hash. From the empty
  repository, the first commit has no parents and the second has the first one's hash
  as its only parent.
\<close>

theorem commit_spec:
  "(case commit r treeHash message author now of (c, r') \<Rightarrow>
      commit_parents c =
        (case map_of (refs r) (HEAD r) of None \<Rightarrow> [] | Some h \<Rightarrow> if h = [] then [] else [h])
      \<and> commit_tree c = treeHash \<and> commit_message c = message \<and> commit_author c = author
      \<and> getObject r' (commit_hash c) = Some (Commit c)
      \<and> HEAD r' = HEAD r
      \<and> map_of (refs r') (HEAD r) = Some (commit_hash c))
   \<and> (case commit new_GitRepository treeHash message author now of (c1, r1) \<Rightarrow>
        case commit r1 treeHash2 message2 author2 now2 of (c2, r2) \<Rightarrow>
          commit_parents c1 = [] \<and> commit_parents c2 = [commit_hash c1])"
  by (simp add: commit_def Let_def storeObject_def getObject_def update_conv'
      new_GitRepository_def new_GitCommit_def GitHash_generate_nonempty)

text \<open>
  C7. \<open>checkout\<close> succeeds exactly when the name has an entry in the ref table, and then
  changes \<open>HEAD\<close> only; otherwise it fails and the repository is unchanged.
\<close>

theorem checkout_spec:
  "checkout r name =
     (if name \<in> fst ` set (refs r) then (True, r\<lparr>HEAD := name\<rparr>) else (False, r))"
  by (simp add: checkout_def map_of_eq_None_iff)

theorem checkout_spec_witness:
  "checkout \<lparr>objects = [], refs = [(''main'', ''c1'')], HEAD = ''main''\<rparr> ''dev''
     = (False, \<lparr>objects = [], refs = [(''main'', ''c1'')], HEAD = ''main''\<rparr>)
   \<and> checkout \<lparr>objects = [], refs = [(''main'', ''c1''), (''dev'', ''c1'')], HEAD = ''main''\<rparr> ''dev''
     = (True, \<lparr>objects = [], refs = [(''main'', ''c1''), (''dev'', ''c1'')], HEAD = ''dev''\<rparr>)"
  using checkout_spec [of "\<lparr>objects = [], refs = [(''main'', ''c1'')], HEAD = ''main''\<rparr>" "''dev''"]
    checkout_spec [of "\<lparr>objects = [], refs = [(''main'', ''c1''), (''dev'', ''c1'')], HEAD = ''main''\<rparr>" "''dev''"]
  by simp

text \<open>
  C8. When the ref table holds a commit hash for \<open>HEAD\<close>, \<open>createBranch("feature")\<close>,
  \<open>checkout("feature")\<close> and \<open>commit\<close> leave the entry of every branch but
  \<open>feature\<close> as it was (that of \<open>main\<close> among them) and set the entry of \<open>feature\<close> to the
  hash of the new commit, whose only parent is the old commit.
\<close>

theorem branch_isolation:
  assumes "map_of (refs r) (HEAD r) = Some h" and "h \<noteq> []"
  shows "(case checkout (createBranch r ''feature'' None) ''feature'' of (ok, r2) \<Rightarrow>
          case commit r2 treeHash message author now of (c, r3) \<Rightarrow>
            ok \<and> HEAD r3 = ''feature''
            \<and> commit_parents c = [h]
            \<and> map_of (refs r3) ''feature'' = Some (commit_hash c)
            \<and> map_of (refs r3) ''main'' = map_of (refs r) ''main''
            \<and> (\<forall>b. b \<noteq> ''feature'' \<longrightarrow> map_of (refs r3) b = map_of (refs r) b))"
  using assms
  by (simp add: createBranch_def checkout_def commit_def Let_def storeObject_def update_conv')

theorem branch_isolation_witness:
  "map_of (refs \<lparr>objects = [], refs = [(''main'', ''c1'')], HEAD = ''main''\<rparr>)
      (HEAD \<lparr>objects = [], refs = [(''main'', ''c1'')], HEAD = ''main''\<rparr>) = Some ''c1''
   \<and> ''c1'' \<noteq> []
   \<and> (case checkout (createBranch \<lparr>objects = [], refs = [(''main'', ''c1'')], HEAD = ''main''\<rparr>
          ''feature'' None) ''feature'' of (ok, r2) \<Rightarrow>
        case commit r2 ''t'' ''Add feature'' ''Alice'' ''2024-01-01T00:00:00.000Z'' of (c, r3) \<Rightarrow>
          ok \<and> HEAD r3 = ''feature'' \<and> commit_parents c = [''c1'']
          \<and> map_of (refs r3) ''feature'' = Some (commit_hash c)
          \<and> map_of (refs r3) ''main'' = Some ''c1'')"
proof -
  have a: "map_of (refs \<lparr>objects = [], refs = [(''main'', ''c1'')], HEAD = ''main''\<rparr>)
      (HEAD \<lparr>objects = [], refs = [(''main'', ''c1'')], HEAD = ''main''\<rparr>) = Some ''c1''"
    by simp
  have b: "''c1'' \<noteq> []" by simp
  show ?thesis
    using branch_isolation [OF a b, of "''t''" "''Add feature''" "''Alice''" "''2024-01-01T00:00:00.000Z''"]
    by (simp split: prod.splits)
qed

section \<open>Properties of the history traversals\<close>

subsection \<open>getCommitHistory\<close>

text \<open>
  What a run of \<open>dfs\<close> appends to the history: each appended object is a commit found in
  the store under a hash that is one of the hashes the run was called on, or a parent
  of a commit appended by the same run.
\<close>

definition entered :: "GitRepository \<Rightarrow> string list \<Rightarrow> git_object list \<Rightarrow> bool" where
  "entered r hs new =
     (\<forall>obj \<in> set new. \<exists>c k. obj = Commit c \<and> getObject r k = Some (Commit c)
        \<and> (k \<in> set hs \<or> (\<exists>c'. Commit c' \<in> set new \<and> k \<in> set (commit_parents c'))))"

lemma as_commit_Some: "as_commit obj = Some c \<longleftrightarrow> obj = Some (Commit c)"
  by (auto simp: as_commit_def split: option.splits git_object.splits)

lemma entered_mono:
  "entered r hs new \<Longrightarrow> set hs \<subseteq> set hs' \<Longrightarrow> entered r hs' new"
  unfolding entered_def by blast

lemma entered_Cons:
  assumes c: "getObject r k = Some (Commit c)"
    and 1: "entered r (commit_parents c) new1" and 2: "entered r rest new2"
  shows "entered r (k # rest) (Commit c # new1 @ new2)"
  unfolding entered_def
proof
  fix obj assume "obj \<in> set (Commit c # new1 @ new2)"
  then consider "obj = Commit c" | "obj \<in> set new1" | "obj \<in> set new2" by auto
  then show "\<exists>c0 k0. obj = Commit c0 \<and> getObject r k0 = Some (Commit c0)
        \<and> (k0 \<in> set (k # rest) \<or> (\<exists>c'. Commit c' \<in> set (Commit c # new1 @ new2) \<and> k0 \<in> set (commit_parents c')))"
  proof cases
    case 1
    with c show ?thesis by auto
  next
    case 2
    with \<open>entered r (commit_parents c) new1\<close> obtain c0 k0 where
      "obj = Commit c0" "getObject r k0 = Some (Commit c0)"
      "k0 \<in> set (commit_parents c) \<or> (\<exists>c'. Commit c' \<in> set new1 \<and> k0 \<in> set (commit_parents c'))"
      unfolding entered_def by blast
    then show ?thesis by auto
  next
    case 3
    with \<open>entered r rest new2\<close> obtain c0 k0 where
      "obj = Commit c0" "getObject r k0 = Some (Commit c0)"
      "k0 \<in> set rest \<or> (\<exists>c'. Commit c' \<in> set new2 \<and> k0 \<in> set (commit_parents c'))"
      unfolding entered_def by blast
    then show ?thesis by auto
  qed
qed

lemma gh_dfs_appends:
  "\<exists>new. snd (gh_dfs r hs (visited, history)) = history @ new \<and> entered r hs new"
proof (induction r hs "(visited, history)" arbitrary: visited history rule: gh_dfs.induct)
  case (1 r visited history)
  show ?case by (simp add: entered_def gh_dfs.simps)
next
  case (2 r commitHash rest visited history)
  show ?case
  proof (cases "commitHash = [] \<or> commitHash \<in> visited")
    case True
    from "2.hyps"(1) [OF True] obtain new where
      "snd (gh_dfs r rest (visited, history)) = history @ new" "entered r rest new" by blast
    then show ?thesis using True entered_mono [of r rest new "commitHash # rest"]
      by (auto simp: gh_dfs.simps)
  next
    case False
    show ?thesis
    proof (cases "as_commit (getObject r commitHash)")
      case None
      from "2.hyps"(2) [OF False None] obtain new where
        "snd (gh_dfs r rest (insert commitHash visited, history)) = history @ new" "entered r rest new"
        by blast
      then show ?thesis using False None entered_mono [of r rest new "commitHash # rest"]
        by (auto simp: gh_dfs.simps)
    next
      case (Some c)
      obtain v1 h1 where inner:
        "gh_dfs r (commit_parents c) (insert commitHash visited, history @ [Commit c]) = (v1, h1)"
        by (metis prod.exhaust)
      from "2.hyps"(3) [OF False Some] inner obtain new1 where
        n1: "h1 = (history @ [Commit c]) @ new1" "entered r (commit_parents c) new1" by auto
      from "2.hyps"(4) [OF False Some inner] obtain new2 where
        n2: "snd (gh_dfs r rest (v1, h1)) = h1 @ new2" "entered r rest new2" by blast
      have "getObject r commitHash = Some (Commit c)" using Some by (simp add: as_commit_Some)
      from entered_Cons [OF this n1(2) n2(2)]
      have "entered r (commitHash # rest) (Commit c # new1 @ new2)" .
      moreover have "snd (gh_dfs r (commitHash # rest) (visited, history)) = history @ (Commit c # new1 @ new2)"
        using False Some inner n1 n2 by (simp add: gh_dfs.simps)
      ultimately show ?thesis by blast
    qed
  qed
qed

text \<open>
  C10. \<open>getCommitHistory\<close> returns the empty history when the start hash (the hash given,
  or else the entry of \<open>HEAD\<close>) is missing, or names no object of the store, or names an
  object whose type is not \<open>commit\<close>. Every object of the history has type \<open>commit\<close>, and
  it was found in the store under the start hash or under a parent of a commit of the
  history: nothing is reached through an object that is not a commit.
\<close>

theorem getCommitHistory_commits_only:
  "(gh_start r startHash = None
      \<or> (\<exists>h. gh_start r startHash = Some h
            \<and> (getObject r h = None \<or> (\<exists>obj. getObject r h = Some obj \<and> object_type obj \<noteq> ''commit'')))
    \<longrightarrow> getCommitHistory r startHash = [])
   \<and> (\<forall>obj \<in> set (getCommitHistory r startHash).
        object_type obj = ''commit''
        \<and> (\<exists>k. getObject r k = Some obj
              \<and> (gh_start r startHash = Some k
                  \<or> (\<exists>c'. Commit c' \<in> set (getCommitHistory r startHash)
                          \<and> k \<in> set (commit_parents c')))))"
proof (rule conjI; (rule impI | rule ballI))
  assume a: "gh_start r startHash = None
      \<or> (\<exists>h. gh_start r startHash = Some h
            \<and> (getObject r h = None \<or> (\<exists>obj. getObject r h = Some obj \<and> object_type obj \<noteq> ''commit'')))"
  show "getCommitHistory r startHash = []"
  proof (cases "gh_start r startHash")
    case None
    then show ?thesis by (simp add: getCommitHistory_def)
  next
    case (Some h)
    with a have "getObject r h = None \<or> (\<exists>obj. getObject r h = Some obj \<and> object_type obj \<noteq> ''commit'')"
      by simp
    then have "as_commit (getObject r h) = None"
      by (auto simp: as_commit_def split: git_object.splits)
    then show ?thesis using Some by (simp add: getCommitHistory_def gh_dfs.simps)
  qed
next
  fix obj assume obj: "obj \<in> set (getCommitHistory r startHash)"
  obtain h where h: "gh_start r startHash = Some h" "h \<noteq> []"
  proof (cases "gh_start r startHash")
    case None
    with obj show ?thesis by (simp add: getCommitHistory_def)
  next
    case (Some h)
    with obj have "h \<noteq> []" by (auto simp: getCommitHistory_def)
    with Some that show ?thesis by blast
  qed
  then have hist: "getCommitHistory r startHash = snd (gh_dfs r [h] ({}, []))"
    by (simp add: getCommitHistory_def)
  from gh_dfs_appends [of r "[h]" "{}" "[]"] hist
  have "entered r [h] (getCommitHistory r startHash)" by auto
  with obj obtain c k where "obj = Commit c" "getObject r k = Some (Commit c)"
    "k \<in> set [h] \<or> (\<exists>c'. Commit c' \<in> set (getCommitHistory r startHash) \<and> k \<in> set (commit_parents c'))"
    unfolding entered_def by blast
  then show "object_type obj = ''commit''
        \<and> (\<exists>k. getObject r k = Some obj
              \<and> (gh_start r startHash = Some k
                  \<or> (\<exists>c'. Commit c' \<in> set (getCommitHistory r startHash)
                          \<and> k \<in> set (commit_parents c'))))"
    using h by auto
qed

theorem getCommitHistory_commits_only_witness:
  "gh_start \<lparr>objects =
       [(''b1'', Blob \<lparr>blob_content = ''hello'', blob_hash = ''b1''\<rparr>),
        (''c1'', Commit \<lparr>commit_tree = ''t1'', commit_parents = [''b1''], commit_author = ''Alice'',
                  commit_message = ''first'', commit_timestamp = ''2024-01-01'', commit_hash = ''c1''\<rparr>)],
      refs = [(''main'', ''c1'')], HEAD = ''main''\<rparr> (Some ''b1'') = Some ''b1''
   \<and> getObject \<lparr>objects =
       [(''b1'', Blob \<lparr>blob_content = ''hello'', blob_hash = ''b1''\<rparr>),
        (''c1'', Commit \<lparr>commit_tree = ''t1'', commit_parents = [''b1''], commit_author = ''Alice'',
                  commit_message = ''first'', commit_timestamp = ''2024-01-01'', commit_hash = ''c1''\<rparr>)],
      refs = [(''main'', ''c1'')], HEAD = ''main''\<rparr> ''b1''
       = Some (Blob \<lparr>blob_content = ''hello'', blob_hash = ''b1''\<rparr>)
   \<and> getCommitHistory \<lparr>objects =
       [(''b1'', Blob \<lparr>blob_content = ''hello'', blob_hash = ''b1''\<rparr>),
        (''c1'', Commit \<lparr>commit_tree = ''t1'', commit_parents = [''b1''], commit_author = ''Alice'',
                  commit_message = ''first'', commit_timestamp = ''2024-01-01'', commit_hash = ''c1''\<rparr>)],
      refs = [(''main'', ''c1'')], HEAD = ''main''\<rparr> (Some ''b1'') = []
   \<and> getCommitHistory \<lparr>objects =
       [(''b1'', Blob \<lparr>blob_content = ''hello'', blob_hash = ''b1''\<rparr>),
        (''c1'', Commit \<lparr>commit_tree = ''t1'', commit_parents = [''b1''], commit_author = ''Alice'',
                  commit_message = ''first'', commit_timestamp = ''2024-01-01'', commit_hash = ''c1''\<rparr>)],
      refs = [(''main'', ''c1'')], HEAD = ''main''\<rparr> None
       = [Commit \<lparr>commit_tree = ''t1'', commit_parents = [''b1''], commit_author = ''Alice'',
                  commit_message = ''first'', commit_timestamp = ''2024-01-01'', commit_hash = ''c1''\<rparr>]
   \<and> object_type (Commit \<lparr>commit_tree = ''t1'', commit_parents = [''b1''], commit_author = ''Alice'',
                  commit_message = ''first'', commit_timestamp = ''2024-01-01'', commit_hash = ''c1''\<rparr>)
       = ''commit''"
proof -
  let ?b = "Blob \<lparr>blob_content = ''hello'', blob_hash = ''b1''\<rparr>"
  let ?c = "Commit \<lparr>commit_tree = ''t1'', commit_parents = [''b1''], commit_author = ''Alice'',
                  commit_message = ''first'', commit_timestamp = ''2024-01-01'', commit_hash = ''c1''\<rparr>"
  let ?r = "\<lparr>objects = [(''b1'', ?b), (''c1'', ?c)], refs = [(''main'', ''c1'')], HEAD = ''main''\<rparr>"
  have start: "gh_start ?r (Some ''b1'') = Some ''b1''"
    by (simp add: gh_start_def)
  have blob: "getObject ?r ''b1'' = Some ?b"
    by (simp add: getObject_def)
  have "object_type ?b \<noteq> ''commit''" by simp
  with start blob getCommitHistory_commits_only [of ?r "Some ''b1''"]
  have empty: "getCommitHistory ?r (Some ''b1'') = []" by blast
  have hist: "getCommitHistory ?r None = [?c]"
    by code_simp
  then have "?c \<in> set (getCommitHistory ?r None)" by simp
  with getCommitHistory_commits_only [of ?r None]
  have "object_type ?c = ''commit''" by blast
  with start blob empty hist show ?thesis by blast
qed

subsection \<open>findMergeBase\<close>

text \<open>
  The parent relation of the store: a stored commit and each hash of its parents list.
  The empty string is no fingerprint, and the traversals skip it.
\<close>

definition parent_rel :: "GitRepository \<Rightarrow> (string \<times> string) set" where
  "parent_rel r =
     {(h, p). h \<noteq> [] \<and> p \<noteq> [] \<and> (\<exists>c. getObject r h = Some (Commit c) \<and> p \<in> set (commit_parents c))}"

text \<open>The inclusive ancestor set of a hash, in the spec's words.\<close>

definition ancestors :: "GitRepository \<Rightarrow> string \<Rightarrow> string set" where
  "ancestors r h = {x. (h, x) \<in> (parent_rel r)\<^sup>*}"

lemma parent_rel_commit:
  "as_commit (getObject r h) = Some c \<Longrightarrow> h \<noteq> [] \<Longrightarrow> parent_rel r `` {h} = set (commit_parents c) - {[]}"
  by (auto simp: parent_rel_def as_commit_Some)

lemma parent_rel_no_commit:
  "as_commit (getObject r h) = None \<Longrightarrow> parent_rel r `` {h} = {}"
  by (auto simp: parent_rel_def as_commit_def)

lemma traverse_invariant:
  "A \<subseteq> traverse r hs A
   \<and> set hs - {[]} \<subseteq> traverse r hs A
   \<and> traverse r hs A \<subseteq> A \<union> (parent_rel r)\<^sup>* `` (set hs - {[]})
   \<and> (\<forall>x \<in> traverse r hs A - A. parent_rel r `` {x} \<subseteq> traverse r hs A)"
proof (induction r hs A rule: traverse.induct)
  case (1 r A)
  show ?case by (simp add: traverse.simps)
next
  case (2 r hash rest A)
  let ?P = "parent_rel r"
  show ?case
  proof (cases "hash = [] \<or> hash \<in> A")
    case True
    then have eq: "traverse r (hash # rest) A = traverse r rest A" by (simp add: traverse.simps)
    from "2.IH"(1) [OF True] have ih:
      "A \<subseteq> traverse r rest A" "set rest - {[]} \<subseteq> traverse r rest A"
      "traverse r rest A \<subseteq> A \<union> ?P\<^sup>* `` (set rest - {[]})"
      "\<forall>x \<in> traverse r rest A - A. ?P `` {x} \<subseteq> traverse r rest A" by auto
    have "?P\<^sup>* `` (set rest - {[]}) \<subseteq> ?P\<^sup>* `` (set (hash # rest) - {[]})" by auto
    with ih True show ?thesis unfolding eq by auto
  next
    case False
    then have hne: "hash \<noteq> []" and hA: "hash \<notin> A" by auto
    show ?thesis
    proof (cases "as_commit (getObject r hash)")
      case None
      then have eq: "traverse r (hash # rest) A = traverse r rest (insert hash A)"
        using False by (simp add: traverse.simps)
      let ?A' = "traverse r rest (insert hash A)"
      from "2.IH"(2) [OF False None] have ih:
        "insert hash A \<subseteq> ?A'" "set rest - {[]} \<subseteq> ?A'"
        "?A' \<subseteq> insert hash A \<union> ?P\<^sup>* `` (set rest - {[]})"
        "\<forall>x \<in> ?A' - insert hash A. ?P `` {x} \<subseteq> ?A'" by auto
      have a: "A \<subseteq> ?A'" using ih(1) by auto
      have b: "set (hash # rest) - {[]} \<subseteq> ?A'" using ih(1,2) by auto
      have c: "?A' \<subseteq> A \<union> ?P\<^sup>* `` (set (hash # rest) - {[]})"
      proof
        fix x assume "x \<in> ?A'"
        with ih(3) have "x = hash \<or> x \<in> A \<or> x \<in> ?P\<^sup>* `` (set rest - {[]})" by auto
        then show "x \<in> A \<union> ?P\<^sup>* `` (set (hash # rest) - {[]})" using hne by auto
      qed
      have d: "\<forall>x \<in> ?A' - A. ?P `` {x} \<subseteq> ?A'"
      proof
        fix x assume x: "x \<in> ?A' - A"
        show "?P `` {x} \<subseteq> ?A'"
        proof (cases "x = hash")
          case True
          then show ?thesis using parent_rel_no_commit [OF None] by simp
        next
          case False
          with x ih(4) show ?thesis by auto
        qed
      qed
      from a b c d show ?thesis unfolding eq by blast
    next
      case (Some c)
      let ?A1 = "traverse r (commit_parents c) (insert hash A)"
      let ?A' = "traverse r rest ?A1"
      have eq: "traverse r (hash # rest) A = ?A'"
        using False Some by (simp add: traverse.simps)
      from "2.IH"(3) [OF False Some] have ih1:
        "insert hash A \<subseteq> ?A1" "set (commit_parents c) - {[]} \<subseteq> ?A1"
        "?A1 \<subseteq> insert hash A \<union> ?P\<^sup>* `` (set (commit_parents c) - {[]})"
        "\<forall>x \<in> ?A1 - insert hash A. ?P `` {x} \<subseteq> ?A1" by auto
      from "2.IH"(4) [OF False Some] have ih2:
        "?A1 \<subseteq> ?A'" "set rest - {[]} \<subseteq> ?A'"
        "?A' \<subseteq> ?A1 \<union> ?P\<^sup>* `` (set rest - {[]})"
        "\<forall>x \<in> ?A' - ?A1. ?P `` {x} \<subseteq> ?A'" by auto
      have step: "?P `` {hash} = set (commit_parents c) - {[]}"
        using parent_rel_commit [OF Some hne] .
      have a: "A \<subseteq> ?A'" using ih1(1) ih2(1) by auto
      have b: "set (hash # rest) - {[]} \<subseteq> ?A'" using ih1(1) ih2(1,2) by auto
      have c: "?A' \<subseteq> A \<union> ?P\<^sup>* `` (set (hash # rest) - {[]})"
      proof
        fix x assume "x \<in> ?A'"
        with ih2(3) ih1(3) consider "x = hash" | "x \<in> A"
          | "x \<in> ?P\<^sup>* `` (set (commit_parents c) - {[]})" | "x \<in> ?P\<^sup>* `` (set rest - {[]})"
          by blast
        then show "x \<in> A \<union> ?P\<^sup>* `` (set (hash # rest) - {[]})"
        proof cases
          case 1
          then show ?thesis using hne by auto
        next
          case 2
          then show ?thesis by simp
        next
          case 3
          then obtain p where p: "p \<in> set (commit_parents c) - {[]}" "(p, x) \<in> ?P\<^sup>*" by auto
          with step have "(hash, p) \<in> ?P" by auto
          with p(2) have "(hash, x) \<in> ?P\<^sup>*" by (meson converse_rtrancl_into_rtrancl)
          then show ?thesis using hne by auto
        next
          case 4
          then show ?thesis by auto
        qed
      qed
      have d: "\<forall>x \<in> ?A' - A. ?P `` {x} \<subseteq> ?A'"
      proof
        fix x assume x: "x \<in> ?A' - A"
        show "?P `` {x} \<subseteq> ?A'"
        proof (cases "x = hash")
          case True
          then show ?thesis using step ih1(2) ih2(1) by auto
        next
          case xh: False
          show ?thesis
          proof (cases "x \<in> ?A1")
            case True
            with xh x ih1(4) have "?P `` {x} \<subseteq> ?A1" by auto
            with ih2(1) show ?thesis by blast
          next
            case False
            with x ih2(4) show ?thesis by auto
          qed
        qed
      qed
      from a b c d show ?thesis unfolding eq by blast
    qed
  qed
qed

text \<open>\<open>traverse\<close> from the tip computes the inclusive ancestor set.\<close>

lemma traverse_ancestors:
  assumes "h \<noteq> []"
  shows "traverse r [h] {} = ancestors r h"
proof
  from traverse_invariant [of "{}" r "[h]"] assms
  have "traverse r [h] {} \<subseteq> (parent_rel r)\<^sup>* `` {h}" by auto
  then show "traverse r [h] {} \<subseteq> ancestors r h" by (auto simp: ancestors_def)
next
  let ?T = "traverse r [h] {}"
  from traverse_invariant [of "{}" r "[h]"] assms
  have h: "h \<in> ?T" and closed: "\<forall>x \<in> ?T. parent_rel r `` {x} \<subseteq> ?T" by auto
  have "(h, x) \<in> (parent_rel r)\<^sup>* \<Longrightarrow> x \<in> ?T" for x
    by (induction rule: rtrancl_induct) (use h closed in auto)
  then show "ancestors r h \<subseteq> ?T" by (auto simp: ancestors_def)
qed

text \<open>
  The depth-first walk of an ancestry, in the spec's words: the tip first, then the walk
  of each parent in the declared order. It keeps no visited set either, so on a cycle of
  parents it is undefined (\<open>None\<close>).
\<close>

partial_function (option) ancestry_walk :: "GitRepository \<Rightarrow> string list \<Rightarrow> string list option" where
  "ancestry_walk r hs =
     (case hs of
        [] \<Rightarrow> Some []
      | h # rest \<Rightarrow>
          Option.bind
            (if h = [] then Some []
             else (case as_commit (getObject r h) of
                     Some c \<Rightarrow> Option.bind (ancestry_walk r (commit_parents c)) (\<lambda>w. Some (h # w))
                   | None \<Rightarrow> Some [h]))
            (\<lambda>w1. Option.bind (ancestry_walk r rest) (\<lambda>w2. Some (w1 @ w2))))"

declare ancestry_walk.simps [code]

text \<open>
  The merge base in the spec's words: absent when a branch has no entry, and else the
  first fingerprint of the walk of branchB's ancestry that is in the ancestor set of
  branchA's tip.
\<close>

definition spec_mergeBase :: "GitRepository \<Rightarrow> string \<Rightarrow> string \<Rightarrow> string option option" where
  "spec_mergeBase r branchA branchB =
     (case (map_of (refs r) branchA, map_of (refs r) branchB) of
        (Some a, Some b) \<Rightarrow> map_option (find (\<lambda>x. x \<in> ancestors r a)) (ancestry_walk r [b])
      | _ \<Rightarrow> Some None)"

lemma find_append_first:
  "find P (xs @ ys) = (case find P xs of None \<Rightarrow> find P ys | Some x \<Rightarrow> Some x)"
  by (induction xs) auto

lemma findCommons_walk:
  assumes "ancestry_walk r hs = Some w"
  shows "findCommons r anc hs = Some (find (\<lambda>x. x \<in> anc) w)"
  using assms
proof (rule ancestry_walk.raw_induct
    [where P = "\<lambda>r hs w. findCommons r anc hs = Some (find (\<lambda>x. x \<in> anc) w)", rotated], goal_cases)
  case (1 walk r hs w)
  show ?case
  proof (cases hs)
    case Nil
    with 1(2) show ?thesis by (simp add: findCommons.simps)
  next
    case (Cons h rest)
    with 1(2) obtain w1 w2 where
      w1: "(if h = [] then Some []
            else (case as_commit (getObject r h) of
                    Some c \<Rightarrow> Option.bind (walk r (commit_parents c)) (\<lambda>w. Some (h # w))
                  | None \<Rightarrow> Some [h])) = Some w1"
      and w2: "walk r rest = Some w2" and w: "w = w1 @ w2"
      by (auto simp: bind_eq_Some_conv)
    from 1(1) [OF w2] have rest: "findCommons r anc rest = Some (find (\<lambda>x. x \<in> anc) w2)" .
    show ?thesis
    proof (cases "h = []")
      case True
      with w1 have "w1 = []" by simp
      with True rest w Cons show ?thesis by (simp add: findCommons.simps)
    next
      case hne: False
      show ?thesis
      proof (cases "h \<in> anc")
        case True
        from w1 hne have "\<exists>t. w1 = h # t"
          by (auto simp: bind_eq_Some_conv split: option.splits)
        with True w have "find (\<lambda>x. x \<in> anc) w = Some h" by auto
        with True hne Cons show ?thesis by (simp add: findCommons.simps)
      next
        case False
        show ?thesis
        proof (cases "as_commit (getObject r h)")
          case None
          with w1 hne have "w1 = [h]" by simp
          with False w have "find (\<lambda>x. x \<in> anc) w = find (\<lambda>x. x \<in> anc) w2" by simp
          with None False hne rest Cons show ?thesis by (simp add: findCommons.simps)
        next
          case (Some c)
          with w1 hne obtain w' where w': "walk r (commit_parents c) = Some w'" "w1 = h # w'"
            by (auto simp: bind_eq_Some_conv)
          from 1(1) [OF w'(1)]
          have par: "findCommons r anc (commit_parents c) = Some (find (\<lambda>x. x \<in> anc) w')" .
          have "find (\<lambda>x. x \<in> anc) w =
              (case find (\<lambda>x. x \<in> anc) w' of None \<Rightarrow> find (\<lambda>x. x \<in> anc) w2 | Some x \<Rightarrow> Some x)"
            using w w'(2) False by (simp add: find_append_first)
          with Some False hne rest par Cons show ?thesis
            by (simp add: findCommons.simps split: option.splits)
        qed
      qed
    qed
  qed
qed

lemma finite_parent_rel: "finite (parent_rel r)"
proof (rule finite_subset)
  show "parent_rel r \<subseteq> fst ` set (objects r) \<times> (\<Union>(k, obj) \<in> set (objects r).
          case obj of Commit c \<Rightarrow> set (commit_parents c) | _ \<Rightarrow> {})"
  proof
    fix e assume "e \<in> parent_rel r"
    then obtain h p c where e: "e = (h, p)" and c: "map_of (objects r) h = Some (Commit c)"
      and p: "p \<in> set (commit_parents c)"
      by (auto simp: parent_rel_def getObject_def)
    from c have "(h, Commit c) \<in> set (objects r)" by (rule map_of_SomeD)
    with p e show "e \<in> fst ` set (objects r) \<times> (\<Union>(k, obj) \<in> set (objects r).
          case obj of Commit c \<Rightarrow> set (commit_parents c) | _ \<Rightarrow> {})"
      by (force intro: rev_image_eqI)
  qed
  show "finite (fst ` set (objects r) \<times> (\<Union>(k, obj) \<in> set (objects r).
          case obj of Commit c \<Rightarrow> set (commit_parents c) | _ \<Rightarrow> {}))"
  proof (intro finite_cartesian_product finite_imageI finite_UN_I)
    fix x assume "x \<in> set (objects r)"
    show "finite (case x of (k, obj) \<Rightarrow>
          case obj of Commit c \<Rightarrow> set (commit_parents c) | _ \<Rightarrow> {})"
      by (auto split: prod.splits git_object.splits)
  qed simp_all
qed

lemma ancestry_walk_list:
  "(\<And>h. h \<in> set hs \<Longrightarrow> h \<noteq> [] \<Longrightarrow> \<exists>w. ancestry_walk r [h] = Some w) \<Longrightarrow> \<exists>w. ancestry_walk r hs = Some w"
proof (induction hs)
  case Nil
  show ?case by (simp add: ancestry_walk.simps)
next
  case (Cons h rest)
  then obtain w2 where w2: "ancestry_walk r rest = Some w2" by auto
  show ?case
  proof (cases "h = []")
    case True
    with w2 show ?thesis by (subst ancestry_walk.simps) simp
  next
    case False
    with Cons.prems obtain w where "ancestry_walk r [h] = Some w" by auto
    then obtain w1 where "(case as_commit (getObject r h) of
                     Some c \<Rightarrow> Option.bind (ancestry_walk r (commit_parents c)) (\<lambda>w. Some (h # w))
                   | None \<Rightarrow> Some [h]) = Some w1"
      using False by (subst (asm) ancestry_walk.simps) (auto simp: bind_eq_Some_conv)
    with w2 False show ?thesis by (subst ancestry_walk.simps) simp
  qed
qed

lemma ancestry_walk_acyclic:
  assumes "acyclic (parent_rel r)"
  shows "\<exists>w. ancestry_walk r hs = Some w"
proof -
  have wf: "wf ((parent_rel r)\<inverse>)"
    using finite_parent_rel assms by (rule finite_acyclic_wf_converse)
  have one: "h \<noteq> [] \<Longrightarrow> \<exists>w. ancestry_walk r [h] = Some w" for h
  proof (induction h rule: wf_induct_rule [OF wf])
    case (1 h)
    show ?case
    proof (cases "as_commit (getObject r h)")
      case None
      with 1(2) show ?thesis
        by (subst ancestry_walk.simps) (simp add: ancestry_walk.simps [of r "[]"])
    next
      case (Some c)
      have "\<exists>w. ancestry_walk r [p] = Some w" if "p \<in> set (commit_parents c)" "p \<noteq> []" for p
      proof -
        from that Some 1(2) have "(h, p) \<in> parent_rel r"
          by (auto simp: parent_rel_def as_commit_Some)
        then show ?thesis using 1(1) that(2) by auto
      qed
      then obtain w' where "ancestry_walk r (commit_parents c) = Some w'"
        using ancestry_walk_list [of "commit_parents c" r] by blast
      with Some 1(2) show ?thesis
        by (subst ancestry_walk.simps) (simp add: ancestry_walk.simps [of r "[]"])
    qed
  qed
  then show ?thesis using ancestry_walk_list [of hs r] by blast
qed

lemma findCommons_self_parent:
  assumes "h \<noteq> []" and "h \<notin> anc" and "as_commit (getObject r h) = Some c"
    and "commit_parents c = h # ps"
  shows "findCommons r anc (h # rest) = None"
proof (rule ccontr)
  assume "findCommons r anc (h # rest) \<noteq> None"
  then obtain res where res: "findCommons r anc (h # rest) = Some res" by auto
  have "\<not> (r' = r \<and> anc' = anc \<and> (\<exists>rest. hs = h # rest))"
    if "findCommons r' anc' hs = Some res'" for r' anc' hs res'
    using that
  proof (rule findCommons.raw_induct
      [where P = "\<lambda>r' anc' hs res'. \<not> (r' = r \<and> anc' = anc \<and> (\<exists>rest. hs = h # rest))", rotated],
      goal_cases)
    case (1 f r' anc' hs res')
    show ?case
    proof
      assume "r' = r \<and> anc' = anc \<and> (\<exists>rest. hs = h # rest)"
      then obtain rest' where eq: "r' = r" "anc' = anc" "hs = h # rest'" by blast
      from 1(2) eq assms obtain x where "f r anc (h # ps) = Some x"
        by (auto simp: bind_eq_Some_conv)
      from 1(1) [OF this] show False by blast
    qed
  qed
  from this [OF res] show False by blast
qed

text \<open>
  C2 (as amended). \<open>findMergeBase\<close> returns absent when a branch has no entry in the ref
  table. When the parent links of the store form no cycle, it returns, and its result is
  the merge base in the spec's words: the first fingerprint, on the depth-first walk of
  branchB's ancestry, that is in the inclusive ancestor set of branchA's tip. For four
  different commits \<open>c1\<close> (root), \<open>c2\<close> (parent \<open>c1\<close>), \<open>c3\<close> (parent \<open>c2\<close>, the tip of
  \<open>feature-branch\<close>) and \<open>c4\<close> (parent \<open>c2\<close>, the tip of \<open>main\<close>) the result is the hash of
  \<open>c2\<close>.
\<close>

theorem findMergeBase_spec:
  "((map_of (refs r) branchA = None \<or> map_of (refs r) branchB = None)
      \<longrightarrow> findMergeBase r branchA branchB = Some None)
   \<and> (acyclic (parent_rel r)
      \<longrightarrow> findMergeBase r branchA branchB = spec_mergeBase r branchA branchB
          \<and> (\<exists>res. findMergeBase r branchA branchB = Some res))
   \<and> (map_of (refs r) ''feature-branch'' = Some h3 \<and> map_of (refs r) ''main'' = Some h4
       \<and> getObject r h1 = Some (Commit c1) \<and> commit_parents c1 = []
       \<and> getObject r h2 = Some (Commit c2) \<and> commit_parents c2 = [h1]
       \<and> getObject r h3 = Some (Commit c3) \<and> commit_parents c3 = [h2]
       \<and> getObject r h4 = Some (Commit c4) \<and> commit_parents c4 = [h2]
       \<and> distinct [h1, h2, h3, h4] \<and> [] \<notin> {h1, h2, h3, h4}
      \<longrightarrow> findMergeBase r ''feature-branch'' ''main'' = Some (Some h2))"
proof (intro conjI impI)
  assume "map_of (refs r) branchA = None \<or> map_of (refs r) branchB = None"
  then show "findMergeBase r branchA branchB = Some None"
    by (auto simp: findMergeBase_def split: option.splits)
next
  assume acyc: "acyclic (parent_rel r)"
  have "findMergeBase r branchA branchB = spec_mergeBase r branchA branchB
      \<and> (\<exists>res. findMergeBase r branchA branchB = Some res)"
  proof (cases "map_of (refs r) branchA")
    case None
    then show ?thesis by (simp add: findMergeBase_def spec_mergeBase_def)
  next
    case a: (Some a)
    show ?thesis
    proof (cases "map_of (refs r) branchB")
      case None
      with a show ?thesis by (simp add: findMergeBase_def spec_mergeBase_def)
    next
      case b: (Some b)
      from ancestry_walk_acyclic [OF acyc] obtain w where w: "ancestry_walk r [b] = Some w" by blast
      have nowalk: "[] \<notin> set w'" if "ancestry_walk r hs = Some w'" for hs w'
        using that
      proof (rule ancestry_walk.raw_induct [where P = "\<lambda>r hs w'. [] \<notin> set w'", rotated], goal_cases)
        case (1 f r hs w')
        show ?case
        proof (cases hs)
          case Nil
          with 1(2) show ?thesis by simp
        next
          case (Cons h rest)
          with 1 show ?thesis
            by (auto simp: bind_eq_Some_conv split: if_splits option.splits)
        qed
      qed
      show ?thesis
      proof (cases "a = []")
        case True
        have "ancestors r [] = {[]}"
        proof -
          have "([], x) \<in> (parent_rel r)\<^sup>* \<Longrightarrow> x = []" for x
            by (induction rule: rtrancl_induct) (auto simp: parent_rel_def)
          then show ?thesis by (auto simp: ancestors_def)
        qed
        with nowalk [OF w] have "find (\<lambda>x. x \<in> ancestors r a) w = None"
          using True by (auto simp: find_None_iff)
        with a b w True show ?thesis by (simp add: findMergeBase_def spec_mergeBase_def)
      next
        case ane: False
        show ?thesis
        proof (cases "b = []")
          case True
          then have "w = []" using w by (simp add: ancestry_walk.simps)
          with a b w True show ?thesis by (simp add: findMergeBase_def spec_mergeBase_def)
        next
          case False
          with a b w ane findCommons_walk [OF w, of "ancestors r a"] show ?thesis
            by (simp add: findMergeBase_def spec_mergeBase_def traverse_ancestors)
        qed
      qed
    qed
  qed
  then show "findMergeBase r branchA branchB = spec_mergeBase r branchA branchB"
    and "\<exists>res. findMergeBase r branchA branchB = Some res" by blast+
next
  assume s: "map_of (refs r) ''feature-branch'' = Some h3 \<and> map_of (refs r) ''main'' = Some h4
       \<and> getObject r h1 = Some (Commit c1) \<and> commit_parents c1 = []
       \<and> getObject r h2 = Some (Commit c2) \<and> commit_parents c2 = [h1]
       \<and> getObject r h3 = Some (Commit c3) \<and> commit_parents c3 = [h2]
       \<and> getObject r h4 = Some (Commit c4) \<and> commit_parents c4 = [h2]
       \<and> distinct [h1, h2, h3, h4] \<and> [] \<notin> {h1, h2, h3, h4}"
  have anc: "ancestors r h3 = {h3, h2, h1}"
  proof
    have "(h3, x) \<in> (parent_rel r)\<^sup>* \<Longrightarrow> x \<in> {h3, h2, h1}" for x
      by (induction rule: rtrancl_induct) (use s in \<open>auto simp: parent_rel_def\<close>)
    then show "ancestors r h3 \<subseteq> {h3, h2, h1}" by (auto simp: ancestors_def)
    have "(h3, h2) \<in> parent_rel r" "(h2, h1) \<in> parent_rel r"
      using s by (auto simp: parent_rel_def)
    then have "(h3, h2) \<in> (parent_rel r)\<^sup>*" "(h3, h1) \<in> (parent_rel r)\<^sup>*" by auto
    then show "{h3, h2, h1} \<subseteq> ancestors r h3" by (auto simp: ancestors_def)
  qed
  have "findCommons r {h3, h2, h1} [h4] = Some (Some h2)"
    using s
    by (auto simp: findCommons.simps [of r _ "[h4]"] findCommons.simps [of r _ "[h2]"]
        findCommons.simps [of r _ "[]"] as_commit_def)
  moreover from s have "h3 \<noteq> []" "h4 \<noteq> []" by auto
  ultimately show "findMergeBase r ''feature-branch'' ''main'' = Some (Some h2)"
    using s anc by (simp add: findMergeBase_def traverse_ancestors)
qed

theorem findMergeBase_spec_witness:
  "map_of (refs \<lparr>objects =
        [(''c1'', Commit \<lparr>commit_tree = ''t1'', commit_parents = [], commit_author = ''Alice'',
                   commit_message = ''Initial commit'', commit_timestamp = ''2024-01-01'', commit_hash = ''c1''\<rparr>),
         (''c2'', Commit \<lparr>commit_tree = ''t2'', commit_parents = [''c1''], commit_author = ''Bob'',
                   commit_message = ''Add package.json'', commit_timestamp = ''2024-01-02'', commit_hash = ''c2''\<rparr>),
         (''c3'', Commit \<lparr>commit_tree = ''t3'', commit_parents = [''c2''], commit_author = ''Alice'',
                   commit_message = ''Add new feature'', commit_timestamp = ''2024-01-03'', commit_hash = ''c3''\<rparr>),
         (''c4'', Commit \<lparr>commit_tree = ''t4'', commit_parents = [''c2''], commit_author = ''Bob'',
                   commit_message = ''Add tests'', commit_timestamp = ''2024-01-04'', commit_hash = ''c4''\<rparr>)],
      refs = [(''main'', ''c4''), (''feature-branch'', ''c3'')], HEAD = ''main''\<rparr>) ''nope'' = None
   \<and> findMergeBase \<lparr>objects =
        [(''c1'', Commit \<lparr>commit_tree = ''t1'', commit_parents = [], commit_author = ''Alice'',
                   commit_message = ''Initial commit'', commit_timestamp = ''2024-01-01'', commit_hash = ''c1''\<rparr>),
         (''c2'', Commit \<lparr>commit_tree = ''t2'', commit_parents = [''c1''], commit_author = ''Bob'',
                   commit_message = ''Add package.json'', commit_timestamp = ''2024-01-02'', commit_hash = ''c2''\<rparr>),
         (''c3'', Commit \<lparr>commit_tree = ''t3'', commit_parents = [''c2''], commit_author = ''Alice'',
                   commit_message = ''Add new feature'', commit_timestamp = ''2024-01-03'', commit_hash = ''c3''\<rparr>),
         (''c4'', Commit \<lparr>commit_tree = ''t4'', commit_parents = [''c2''], commit_author = ''Bob'',
                   commit_message = ''Add tests'', commit_timestamp = ''2024-01-04'', commit_hash = ''c4''\<rparr>)],
      refs = [(''main'', ''c4''), (''feature-branch'', ''c3'')], HEAD = ''main''\<rparr> ''main'' ''nope'' = Some None
   \<and> acyclic (parent_rel \<lparr>objects =
        [(''c1'', Commit \<lparr>commit_tree = ''t1'', commit_parents = [], commit_author = ''Alice'',
                   commit_message = ''Initial commit'', commit_timestamp = ''2024-01-01'', commit_hash = ''c1''\<rparr>),
         (''c2'', Commit \<lparr>commit_tree = ''t2'', commit_parents = [''c1''], commit_author = ''Bob'',
                   commit_message = ''Add package.json'', commit_timestamp = ''2024-01-02'', commit_hash = ''c2''\<rparr>),
         (''c3'', Commit \<lparr>commit_tree = ''t3'', commit_parents = [''c2''], commit_author = ''Alice'',
                   commit_message = ''Add new feature'', commit_timestamp = ''2024-01-03'', commit_hash = ''c3''\<rparr>),
         (''c4'', Commit \<lparr>commit_tree = ''t4'', commit_parents = [''c2''], commit_author = ''Bob'',
                   commit_message = ''Add tests'', commit_timestamp = ''2024-01-04'', commit_hash = ''c4''\<rparr>)],
      refs = [(''main'', ''c4''), (''feature-branch'', ''c3'')], HEAD = ''main''\<rparr>)
   \<and> findMergeBase \<lparr>objects =
        [(''c1'', Commit \<lparr>commit_tree = ''t1'', commit_parents = [], commit_author = ''Alice'',
                   commit_message = ''Initial commit'', commit_timestamp = ''2024-01-01'', commit_hash = ''c1''\<rparr>),
         (''c2'', Commit \<lparr>commit_tree = ''t2'', commit_parents = [''c1''], commit_author = ''Bob'',
                   commit_message = ''Add package.json'', commit_timestamp = ''2024-01-02'', commit_hash = ''c2''\<rparr>),
         (''c3'', Commit \<lparr>commit_tree = ''t3'', commit_parents = [''c2''], commit_author = ''Alice'',
                   commit_message = ''Add new feature'', commit_timestamp = ''2024-01-03'', commit_hash = ''c3''\<rparr>),
         (''c4'', Commit \<lparr>commit_tree = ''t4'', commit_parents = [''c2''], commit_author = ''Bob'',
                   commit_message = ''Add tests'', commit_timestamp = ''2024-01-04'', commit_hash = ''c4''\<rparr>)],
      refs = [(''main'', ''c4''), (''feature-branch'', ''c3'')], HEAD = ''main''\<rparr> ''main'' ''nope'' = spec_mergeBase \<lparr>objects =
        [(''c1'', Commit \<lparr>commit_tree = ''t1'', commit_parents = [], commit_author = ''Alice'',
                   commit_message = ''Initial commit'', commit_timestamp = ''2024-01-01'', commit_hash = ''c1''\<rparr>),
         (''c2'', Commit \<lparr>commit_tree = ''t2'', commit_parents = [''c1''], commit_author = ''Bob'',
                   commit_message = ''Add package.json'', commit_timestamp = ''2024-01-02'', commit_hash = ''c2''\<rparr>),
         (''c3'', Commit \<lparr>commit_tree = ''t3'', commit_parents = [''c2''], commit_author = ''Alice'',
                   commit_message = ''Add new feature'', commit_timestamp = ''2024-01-03'', commit_hash = ''c3''\<rparr>),
         (''c4'', Commit \<lparr>commit_tree = ''t4'', commit_parents = [''c2''], commit_author = ''Bob'',
                   commit_message = ''Add tests'', commit_timestamp = ''2024-01-04'', commit_hash = ''c4''\<rparr>)],
      refs = [(''main'', ''c4''), (''feature-branch'', ''c3'')], HEAD = ''main''\<rparr> ''main'' ''nope''
   \<and> findMergeBase \<lparr>objects =
        [(''c1'', Commit \<lparr>commit_tree = ''t1'', commit_parents = [], commit_author = ''Alice'',
                   commit_message = ''Initial commit'', commit_timestamp = ''2024-01-01'', commit_hash = ''c1''\<rparr>),
         (''c2'', Commit \<lparr>commit_tree = ''t2'', commit_parents = [''c1''], commit_author = ''Bob'',
                   commit_message = ''Add package.json'', commit_timestamp = ''2024-01-02'', commit_hash = ''c2''\<rparr>),
         (''c3'', Commit \<lparr>commit_tree = ''t3'', commit_parents = [''c2''], commit_author = ''Alice'',
                   commit_message = ''Add new feature'', commit_timestamp = ''2024-01-03'', commit_hash = ''c3''\<rparr>),
         (''c4'', Commit \<lparr>commit_tree = ''t4'', commit_parents = [''c2''], commit_author = ''Bob'',
                   commit_message = ''Add tests'', commit_timestamp = ''2024-01-04'', commit_hash = ''c4''\<rparr>)],
      refs = [(''main'', ''c4''), (''feature-branch'', ''c3'')], HEAD = ''main''\<rparr> ''feature-branch'' ''main'' = Some (Some ''c2'')"
proof -
  let ?c1 = "\<lparr>commit_tree = ''t1'', commit_parents = [], commit_author = ''Alice'',
                   commit_message = ''Initial commit'', commit_timestamp = ''2024-01-01'', commit_hash = ''c1''\<rparr>"
  let ?c2 = "\<lparr>commit_tree = ''t2'', commit_parents = [''c1''], commit_author = ''Bob'',
                   commit_message = ''Add package.json'', commit_timestamp = ''2024-01-02'', commit_hash = ''c2''\<rparr>"
  let ?c3 = "\<lparr>commit_tree = ''t3'', commit_parents = [''c2''], commit_author = ''Alice'',
                   commit_message = ''Add new feature'', commit_timestamp = ''2024-01-03'', commit_hash = ''c3''\<rparr>"
  let ?c4 = "\<lparr>commit_tree = ''t4'', commit_parents = [''c2''], commit_author = ''Bob'',
                   commit_message = ''Add tests'', commit_timestamp = ''2024-01-04'', commit_hash = ''c4''\<rparr>"
  let ?r = "\<lparr>objects = [(''c1'', Commit ?c1), (''c2'', Commit ?c2), (''c3'', Commit ?c3), (''c4'', Commit ?c4)],
      refs = [(''main'', ''c4''), (''feature-branch'', ''c3'')], HEAD = ''main''\<rparr>"
  note spec = findMergeBase_spec [where r = ?r and branchA = "''main''" and branchB = "''nope''"
      and ?h1.0 = "''c1''" and ?h2.0 = "''c2''" and ?h3.0 = "''c3''" and ?h4.0 = "''c4''"
      and ?c1.0 = ?c1 and ?c2.0 = ?c2 and ?c3.0 = ?c3 and ?c4.0 = ?c4]
  have nope: "map_of (refs ?r) ''nope'' = None" by simp
  have acyc: "acyclic (parent_rel ?r)"
  proof (rule acyclicI_order [where f = "\<lambda>h. if h = ''c1'' then 0 else if h = ''c2'' then 1 else (2::nat)"])
    fix a b assume "(a, b) \<in> parent_rel ?r"
    then have "(a, b) \<in> {(''c2'', ''c1''), (''c3'', ''c2''), (''c4'', ''c2'')}"
      by (auto simp: parent_rel_def getObject_def split: if_splits)
    then show "(if b = ''c1'' then 0 else if b = ''c2'' then 1 else (2::nat))
        < (if a = ''c1'' then 0 else if a = ''c2'' then 1 else (2::nat))"
      by auto
  qed
  have scen: "map_of (refs ?r) ''feature-branch'' = Some ''c3'' \<and> map_of (refs ?r) ''main'' = Some ''c4''
       \<and> getObject ?r ''c1'' = Some (Commit ?c1) \<and> commit_parents ?c1 = []
       \<and> getObject ?r ''c2'' = Some (Commit ?c2) \<and> commit_parents ?c2 = [''c1'']
       \<and> getObject ?r ''c3'' = Some (Commit ?c3) \<and> commit_parents ?c3 = [''c2'']
       \<and> getObject ?r ''c4'' = Some (Commit ?c4) \<and> commit_parents ?c4 = [''c2'']
       \<and> distinct [''c1'', ''c2'', ''c3'', ''c4''] \<and> [] \<notin> {''c1'', ''c2'', ''c3'', ''c4''}"
    by (simp add: getObject_def)
  from spec nope have 1: "findMergeBase ?r ''main'' ''nope'' = Some None" by blast
  from spec acyc have 2: "findMergeBase ?r ''main'' ''nope'' = spec_mergeBase ?r ''main'' ''nope''" by blast
  from spec scen have 3: "findMergeBase ?r ''feature-branch'' ''main'' = Some (Some ''c2'')" by blast
  from nope 1 acyc 2 3 show ?thesis by blast
qed

text \<open>
  C2 as stated fails on a repository built with \<open>commit\<close> and \<open>createBranch\<close> alone. The
  second commit below has the same 32-bit fingerprint as the first, its parent: it
  replaces the first in the store under the hash that is also its own parent. From the
  tip of \<open>main\<close>, \<open>findCommon\<close> then calls itself on the same hash for ever, as the tip of
  \<open>other\<close> has no ancestor in common with it: \<open>findMergeBase\<close> does not return.
\<close>

lemma colliding_commits:
  "snd (commit (snd (commit new_GitRepository ''00000000000000000000000000000000656be1dc''
           ''Initial commit'' ''Alice'' ''2024-01-01T00:00:00.000Z''))
        ''00000000000000000000000000000000656be1dc'' ''Update actqghvk'' ''Alice''
        ''2024-01-02T00:00:00.000Z'')
   = \<lparr>objects =
        [(''000000000000000000000000000000000935f809'',
          Commit \<lparr>commit_tree = ''00000000000000000000000000000000656be1dc'',
                  commit_parents = [''000000000000000000000000000000000935f809''],
                  commit_author = ''Alice'', commit_message = ''Update actqghvk'',
                  commit_timestamp = ''2024-01-02T00:00:00.000Z'',
                  commit_hash = ''000000000000000000000000000000000935f809''\<rparr>)],
      refs = [(''main'', ''000000000000000000000000000000000935f809'')], HEAD = ''main''\<rparr>"
proof -
  have 1: "snd (commit new_GitRepository ''00000000000000000000000000000000656be1dc''
           ''Initial commit'' ''Alice'' ''2024-01-01T00:00:00.000Z'')
    = \<lparr>objects =
        [(''000000000000000000000000000000000935f809'',
          Commit \<lparr>commit_tree = ''00000000000000000000000000000000656be1dc'',
                  commit_parents = [],
                  commit_author = ''Alice'', commit_message = ''Initial commit'',
                  commit_timestamp = ''2024-01-01T00:00:00.000Z'',
                  commit_hash = ''000000000000000000000000000000000935f809''\<rparr>)],
      refs = [(''main'', ''000000000000000000000000000000000935f809'')], HEAD = ''main''\<rparr>"
    by code_simp
  show ?thesis unfolding 1 by code_simp
qed

theorem findMergeBase_counterexample:
  "findMergeBase
     (createBranch
        (snd (commit (snd (commit new_GitRepository ''00000000000000000000000000000000656be1dc''
                 ''Initial commit'' ''Alice'' ''2024-01-01T00:00:00.000Z''))
              ''00000000000000000000000000000000656be1dc'' ''Update actqghvk'' ''Alice''
              ''2024-01-02T00:00:00.000Z''))
        ''other'' (Some ''0000000000000000000000000000000000000000''))
     ''other'' ''main'' = None"
proof -
  let ?h = "''000000000000000000000000000000000935f809''"
  let ?x = "''0000000000000000000000000000000000000000''"
  let ?c = "\<lparr>commit_tree = ''00000000000000000000000000000000656be1dc'',
                  commit_parents = [?h],
                  commit_author = ''Alice'', commit_message = ''Update actqghvk'',
                  commit_timestamp = ''2024-01-02T00:00:00.000Z'',
                  commit_hash = ?h\<rparr>"
  let ?r = "\<lparr>objects = [(?h, Commit ?c)], refs = [(''main'', ?h), (''other'', ?x)], HEAD = ''main''\<rparr>"
  have r: "createBranch
        (snd (commit (snd (commit new_GitRepository ''00000000000000000000000000000000656be1dc''
                 ''Initial commit'' ''Alice'' ''2024-01-01T00:00:00.000Z''))
              ''00000000000000000000000000000000656be1dc'' ''Update actqghvk'' ''Alice''
              ''2024-01-02T00:00:00.000Z''))
        ''other'' (Some ?x) = ?r"
    unfolding colliding_commits by (simp add: createBranch_def)
  have anc: "traverse ?r [?x] {} = {?x}"
    by (simp add: traverse.simps as_commit_def getObject_def)
  have "findCommons ?r {?x} [?h] = None"
    by (rule findCommons_self_parent [where c = ?c]) (simp_all add: as_commit_def getObject_def)
  with anc show ?thesis unfolding r by (simp add: findMergeBase_def)
qed

section \<open>Properties of the graph algorithms\<close>

subsection \<open>topologicalSort\<close>


subsection \<open>Kahn's loop on an acyclic graph\<close>

















subsection \<open>calculateLayout on an acyclic graph\<close>












subsection \<open>findShortestPath\<close>

text \<open>
  Edges read as undirected, and a path from \<open>s\<close> to \<open>e\<close>, in the spec's words: a
  sequence of nodes that starts with \<open>s\<close>, ends with \<open>e\<close>, and in which neighbours
  are joined by an edge in one direction or the other. Its edge count is its length
  minus one.
\<close>

definition adjacent :: "graph_edge list \<Rightarrow> string \<Rightarrow> string \<Rightarrow> bool" where
  "adjacent edges a b =
     (\<exists>e \<in> set edges. (edge_from e = a \<and> edge_to e = b) \<or> (edge_from e = b \<and> edge_to e = a))"

definition is_path :: "graph_edge list \<Rightarrow> string \<Rightarrow> string \<Rightarrow> string list \<Rightarrow> bool" where
  "is_path edges s e p = (p \<noteq> [] \<and> hd p = s \<and> last p = e \<and> successively (adjacent edges) p)"

lemma neighbors_of_update_empty:
  "map_of g k = None \<Longrightarrow> neighbors_of (AList.update k [] g) k' = neighbors_of g k'"
  by (simp add: neighbors_of_def update_conv')

lemma neighbors_of_push:
  "map_of g k \<noteq> None \<Longrightarrow>
   neighbors_of (push_neighbor g k v) k' = (if k' = k then neighbors_of g k @ [v] else neighbors_of g k')"
  by (auto simp: neighbors_of_def push_neighbor_def update_conv')

lemma map_of_push_None:
  "map_of (push_neighbor g k v) k' = None \<longleftrightarrow> map_of g k' = None"
  by (auto simp: push_neighbor_def update_conv' split: option.splits)

lemma neighbors_of_fsp_add_edge:
  "set (neighbors_of (fsp_add_edge g e) k) =
     set (neighbors_of g k) \<union> {w. (k = edge_from e \<and> w = edge_to e) \<or> (k = edge_to e \<and> w = edge_from e)}"
proof -
  define g1 where "g1 = (if map_of g (edge_from e) = None then AList.update (edge_from e) [] g else g)"
  define g2 where "g2 = (if map_of g1 (edge_to e) = None then AList.update (edge_to e) [] g1 else g1)"
  define g3 where "g3 = push_neighbor g2 (edge_from e) (edge_to e)"
  have n1: "neighbors_of g1 k' = neighbors_of g k'" for k'
    by (simp add: g1_def neighbors_of_update_empty)
  have p1: "map_of g1 (edge_from e) \<noteq> None"
    by (simp add: g1_def update_conv')
  have n2: "neighbors_of g2 k' = neighbors_of g k'" for k'
    by (simp add: g2_def neighbors_of_update_empty n1)
  have p2: "map_of g2 (edge_from e) \<noteq> None" "map_of g2 (edge_to e) \<noteq> None"
    using p1 by (auto simp: g2_def update_conv')
  have n3: "neighbors_of g3 k' = (if k' = edge_from e then neighbors_of g k' @ [edge_to e] else neighbors_of g k')" for k'
    using p2 by (simp add: g3_def neighbors_of_push n2)
  have p3: "map_of g3 (edge_to e) \<noteq> None"
    using p2 by (simp add: g3_def map_of_push_None)
  have "fsp_add_edge g e = push_neighbor g3 (edge_to e) (edge_from e)"
    by (simp add: fsp_add_edge_def Let_def g1_def g2_def g3_def)
  then show ?thesis using p3 by (auto simp: neighbors_of_push n3)
qed

lemma neighbors_of_fsp_graph:
  "set (neighbors_of (foldl fsp_add_edge g edges) k) = set (neighbors_of g k) \<union> {w. adjacent edges k w}"
proof (induction edges arbitrary: g)
  case Nil
  show ?case by (simp add: adjacent_def)
next
  case (Cons e edges)
  show ?case
    by (simp add: Cons.IH neighbors_of_fsp_add_edge) (auto simp: adjacent_def)
qed

text \<open>The inner loop over the neighbours: what it marks and what it enqueues.\<close>

fun fresh :: "string set \<Rightarrow> string list \<Rightarrow> string list" where
  "fresh V [] = []"
| "fresh V (n # ns) = (if n \<in> V then fresh V ns else n # fresh (insert n V) ns)"

lemma fsp_visit_step:
  "fsp_visit path (V, Q) n = (if n \<notin> V then (insert n V, Q @ [path @ [n]]) else (V, Q))"
  by (simp add: fsp_visit_def)

lemma fsp_visit_fold:
  "foldl (fsp_visit path) (V, Q) ns = (V \<union> set ns, Q @ map (\<lambda>w. path @ [w]) (fresh V ns))"
proof (induction ns arbitrary: V Q)
  case Nil
  show ?case by simp
next
  case (Cons n ns)
  show ?case by (auto simp: fsp_visit_step Cons.IH insert_absorb)
qed

lemma set_fresh: "set (fresh V ns) = set ns - V"
  by (induction ns arbitrary: V) auto

lemma distinct_fresh: "distinct (fresh V ns)"
  by (induction ns arbitrary: V) (auto simp: set_fresh)

text \<open>
  The invariant of the loop, for a neighbour relation \<open>adj\<close>, the start \<open>s\<close> and the
  target \<open>e\<close>: the queue holds paths from \<open>s\<close>, each a shortest one to its last node,
  in order of length and spanning at most two lengths; a visited node that is no longer
  the end of a queued path has all its neighbours visited; every node with a path shorter
  than the head of the queue has left the queue, every node with a path as long as the
  head is visited; and the target has not left the queue.
\<close>

definition bfs_path :: "(string \<Rightarrow> string \<Rightarrow> bool) \<Rightarrow> string \<Rightarrow> string list \<Rightarrow> bool" where
  "bfs_path adj s p = (p \<noteq> [] \<and> hd p = s \<and> successively adj p)"

definition bfs_inv ::
  "(string \<Rightarrow> string \<Rightarrow> bool) \<Rightarrow> string \<Rightarrow> string \<Rightarrow> string list list \<Rightarrow> string set \<Rightarrow> bool" where
  "bfs_inv adj s e Q V =
     ((\<forall>p \<in> set Q. bfs_path adj s p \<and> last p \<in> V)
      \<and> distinct (map last Q)
      \<and> sorted (map length Q) \<and> (Q \<noteq> [] \<longrightarrow> length (last Q) \<le> length (hd Q) + 1)
      \<and> (\<forall>p \<in> set Q. \<forall>q. bfs_path adj s q \<and> last q = last p \<longrightarrow> length p \<le> length q)
      \<and> (\<forall>u w. u \<in> V \<and> u \<notin> last ` set Q \<and> adj u w \<longrightarrow> w \<in> V)
      \<and> (\<forall>q. bfs_path adj s q \<and> (Q = [] \<or> length q < length (hd Q))
            \<longrightarrow> last q \<in> V \<and> last q \<notin> last ` set Q)
      \<and> (\<forall>q. bfs_path adj s q \<and> Q \<noteq> [] \<and> length q = length (hd Q) \<longrightarrow> last q \<in> V)
      \<and> (e \<in> V \<longrightarrow> e \<in> last ` set Q))"

lemma bfs_path_snoc:
  "bfs_path adj s p \<Longrightarrow> adj (last p) w \<Longrightarrow> bfs_path adj s (p @ [w])"
  by (auto simp: bfs_path_def successively_append_iff)

lemma bfs_path_snocD:
  "bfs_path adj s (p @ [w]) \<Longrightarrow> p \<noteq> [] \<Longrightarrow> bfs_path adj s p \<and> adj (last p) w"
  by (auto simp: bfs_path_def successively_append_iff)

lemma bfs_path_butlast:
  assumes "bfs_path adj s q" and "2 \<le> length q"
  shows "bfs_path adj s (butlast q) \<and> adj (last (butlast q)) (last q) \<and> Suc (length (butlast q)) = length q"
proof -
  from assms have ne: "q \<noteq> []" by auto
  then have q: "q = butlast q @ [last q]" by simp
  from assms(2) have "butlast q \<noteq> []" by (cases q) (auto split: if_splits)
  with bfs_path_snocD [of adj s "butlast q" "last q"] assms(1) q ne show ?thesis by simp
qed

lemma sorted_le_last: "sorted xs \<Longrightarrow> x \<in> set xs \<Longrightarrow> x \<le> last xs" for x :: nat
  by (induction xs) (auto split: if_splits)

lemma sorted_length_hd_le: "sorted (map length xs) \<Longrightarrow> x \<in> set xs \<Longrightarrow> length (hd xs) \<le> length x"
  by (cases xs) auto

lemma bfs_inv_init: "s \<noteq> e \<Longrightarrow> bfs_inv adj s e [[s]] {s}"
proof -
  assume "s \<noteq> e"
  have "length q = 1 \<Longrightarrow> bfs_path adj s q \<Longrightarrow> last q = s" for q
    by (cases q) (auto simp: bfs_path_def)
  moreover have "bfs_path adj s q \<Longrightarrow> 1 \<le> length q" for q
    by (cases q) (auto simp: bfs_path_def)
  ultimately show ?thesis using \<open>s \<noteq> e\<close>
    unfolding bfs_inv_def by (auto simp: bfs_path_def)
qed

lemma bfs_inv_step:
  assumes inv: "bfs_inv adj s e (path # queue) V"
    and ne: "last path \<noteq> e"
    and ns: "set ns = {w. adj (last path) w}"
  shows "bfs_inv adj s e (queue @ map (\<lambda>w. path @ [w]) (fresh V ns)) (V \<union> set ns)"
proof -
  let ?u = "last path"
  let ?L = "length path"
  let ?N = "fresh V ns"
  let ?Q' = "queue @ map (\<lambda>w. path @ [w]) ?N"
  let ?V' = "V \<union> set ns"
  from inv have i1: "\<forall>p \<in> set (path # queue). bfs_path adj s p \<and> last p \<in> V"
    and i2: "distinct (map last (path # queue))"
    and i3: "sorted (map length (path # queue))" "length (last (path # queue)) \<le> ?L + 1"
    and i4: "\<forall>p \<in> set (path # queue). \<forall>q. bfs_path adj s q \<and> last q = last p \<longrightarrow> length p \<le> length q"
    and i5: "\<forall>u w. u \<in> V \<and> u \<notin> last ` set (path # queue) \<and> adj u w \<longrightarrow> w \<in> V"
    and i6: "\<forall>q. bfs_path adj s q \<and> length q < ?L \<longrightarrow> last q \<in> V \<and> last q \<notin> last ` set (path # queue)"
    and i7: "\<forall>q. bfs_path adj s q \<and> length q = ?L \<longrightarrow> last q \<in> V"
    and i8: "e \<in> V \<longrightarrow> e \<in> last ` set (path # queue)"
    unfolding bfs_inv_def by simp_all
  from i1 have path: "bfs_path adj s path" and uV: "?u \<in> V" by auto
  have setN: "set ?N = set ns - V" by (rule set_fresh)
  have lasts: "last ` set ?Q' = last ` set queue \<union> set ?N"
    by (auto simp: image_Un image_image)
  have len_queue: "?L \<le> length p \<and> length p \<le> ?L + 1" if "p \<in> set queue" for p
  proof -
    from that have m: "length p \<in> set (map length (path # queue))" by simp
    from i3(1) have "?L \<le> length p" using that by auto
    moreover from sorted_le_last [OF i3(1) m] i3(2) that have "length p \<le> ?L + 1"
      by (auto simp: last_map split: if_splits)
    ultimately show ?thesis by simp
  qed
  have len_Q': "?L \<le> length p \<and> length p \<le> ?L + 1" if "p \<in> set ?Q'" for p
    using that len_queue by auto
  have hd_Q': "?L \<le> length (hd ?Q') \<and> length (hd ?Q') \<le> ?L + 1" if "?Q' \<noteq> []"
    using len_Q' [of "hd ?Q'"] that hd_in_set by blast
  have sorted': "sorted (map length ?Q')"
  proof -
    have "sorted (map length queue)" using i3(1) by simp
    moreover have "sorted (map length (map (\<lambda>w. path @ [w]) ?N))"
      by (simp add: comp_def sorted_wrt_iff_nth_less nth_append sorted_iff_nth_mono)
    moreover have "\<forall>x \<in> set (map length queue). \<forall>y \<in> set (map length (map (\<lambda>w. path @ [w]) ?N)). x \<le> y"
      using len_queue by auto
    ultimately show ?thesis by (simp add: sorted_append)
  qed
  have c1: "\<forall>p \<in> set ?Q'. bfs_path adj s p \<and> last p \<in> ?V'"
  proof
    fix p assume "p \<in> set ?Q'"
    then consider "p \<in> set queue" | w where "w \<in> set ?N" "p = path @ [w]" by auto
    then show "bfs_path adj s p \<and> last p \<in> ?V'"
    proof cases
      case 1
      with i1 show ?thesis by auto
    next
      case 2
      with setN ns have "adj ?u w" by auto
      with path 2 setN show ?thesis by (auto intro: bfs_path_snoc)
    qed
  qed
  have c2: "distinct (map last ?Q')"
  proof -
    have "map last (map (\<lambda>w. path @ [w]) ?N) = ?N" by (simp add: comp_def)
    moreover have "set (map last queue) \<inter> set ?N = {}" using i1 setN by auto
    ultimately show ?thesis using i2 distinct_fresh [of V ns] by simp
  qed
  have c3: "?Q' \<noteq> [] \<longrightarrow> length (last ?Q') \<le> length (hd ?Q') + 1"
  proof
    assume n: "?Q' \<noteq> []"
    then have "last ?Q' \<in> set ?Q'" by (rule last_in_set)
    from len_Q' [OF this] hd_Q' [OF n] show "length (last ?Q') \<le> length (hd ?Q') + 1" by linarith
  qed
  have c4: "\<forall>p \<in> set ?Q'. \<forall>q. bfs_path adj s q \<and> last q = last p \<longrightarrow> length p \<le> length q"
  proof (intro ballI allI impI)
    fix p q assume p: "p \<in> set ?Q'" and q: "bfs_path adj s q \<and> last q = last p"
    from p consider "p \<in> set queue" | w where "w \<in> set ?N" "p = path @ [w]" by auto
    then show "length p \<le> length q"
    proof cases
      case 1
      with i4 q show ?thesis by auto
    next
      case 2
      with q setN have wV: "last q \<notin> V" by auto
      have "\<not> length q < ?L" using i6 q wV by blast
      moreover have "length q \<noteq> ?L" using i7 q wV by blast
      ultimately show ?thesis using 2 by simp
    qed
  qed
  have c5: "\<forall>u w. u \<in> ?V' \<and> u \<notin> last ` set ?Q' \<and> adj u w \<longrightarrow> w \<in> ?V'"
  proof (intro allI impI)
    fix u w assume a: "u \<in> ?V' \<and> u \<notin> last ` set ?Q' \<and> adj u w"
    show "w \<in> ?V'"
    proof (cases "u = ?u")
      case True
      with a ns show ?thesis by auto
    next
      case False
      from a lasts setN have "u \<in> V" by auto
      moreover from a lasts False have "u \<notin> last ` set (path # queue)" by auto
      ultimately show ?thesis using i5 a by blast
    qed
  qed
  have c8: "e \<in> ?V' \<longrightarrow> e \<in> last ` set ?Q'"
  proof
    assume "e \<in> ?V'"
    then consider "e \<in> V" | "e \<in> set ns - V" by auto
    then show "e \<in> last ` set ?Q'"
    proof cases
      case 1
      with i8 ne have "e \<in> last ` set queue" by auto
      with lasts show ?thesis by blast
    next
      case 2
      with lasts setN show ?thesis by blast
    qed
  qed
  have small: "last q \<in> ?V' \<and> last q \<notin> last ` set ?Q'"
    if q: "bfs_path adj s q" and le: "length q \<le> ?L"
      and c: "?Q' = [] \<or> length q < length (hd ?Q')" for q
  proof (cases "length q < ?L")
    case True
    with i6 q have "last q \<in> V" "last q \<notin> last ` set (path # queue)" by auto
    with lasts setN show ?thesis by auto
  next
    case False
    with le have eq: "length q = ?L" by simp
    with i7 q have qV: "last q \<in> V" by blast
    have "last q \<notin> last ` set ?Q'"
    proof
      assume "last q \<in> last ` set ?Q'"
      with lasts setN qV obtain p where p: "p \<in> set queue" "last q = last p" by auto
      with i4 q have "length p \<le> length q" by auto
      moreover from p have pQ: "p \<in> set ?Q'" by simp
      then have "?Q' \<noteq> []" by auto
      with c have "length q < length (hd ?Q')" by blast
      moreover from sorted_length_hd_le [OF sorted' pQ]
      have "length (hd ?Q') \<le> length p" .
      ultimately show False by simp
    qed
    with qV show ?thesis by simp
  qed
  have c6: "\<forall>q. bfs_path adj s q \<and> (?Q' = [] \<or> length q < length (hd ?Q'))
            \<longrightarrow> last q \<in> ?V' \<and> last q \<notin> last ` set ?Q'"
  proof (intro allI impI)
    fix q assume a: "bfs_path adj s q \<and> (?Q' = [] \<or> length q < length (hd ?Q'))"
    show "last q \<in> ?V' \<and> last q \<notin> last ` set ?Q'"
    proof (cases "length q \<le> ?L")
      case True
      with a small show ?thesis by blast
    next
      case False
      with a hd_Q' have empty: "?Q' = []" by fastforce
      have "bfs_path adj s q \<Longrightarrow> last q \<in> ?V'" for q
      proof (induction q rule: rev_induct)
        case Nil
        then show ?case by (simp add: bfs_path_def)
      next
        case (snoc x q0)
        show ?case
        proof (cases "q0 = []")
          case True
          from path have "1 \<le> ?L" by (cases path) (auto simp: bfs_path_def)
          with small [of "q0 @ [x]"] snoc.prems True empty show ?thesis by simp
        next
          case False
          from bfs_path_snocD [OF snoc.prems False] have q0: "bfs_path adj s q0" "adj (last q0) x"
            by auto
          from snoc.IH [OF q0(1)] have "last q0 \<in> ?V'" .
          moreover have "last q0 \<notin> last ` set ?Q'" using empty by simp
          ultimately have "x \<in> ?V'" using c5 q0(2) by blast
          then show ?thesis by simp
        qed
      qed
      with a empty show ?thesis by simp
    qed
  qed
  have c7: "\<forall>q. bfs_path adj s q \<and> ?Q' \<noteq> [] \<and> length q = length (hd ?Q') \<longrightarrow> last q \<in> ?V'"
  proof (intro allI impI)
    fix q assume a: "bfs_path adj s q \<and> ?Q' \<noteq> [] \<and> length q = length (hd ?Q')"
    then have q: "bfs_path adj s q" and n: "?Q' \<noteq> []" and len: "length q = length (hd ?Q')" by auto
    show "last q \<in> ?V'"
    proof (cases "length q = ?L")
      case True
      with i7 q show ?thesis by blast
    next
      case False
      with hd_Q' [OF n] len have l1: "length q = ?L + 1" by linarith
      from path have "1 \<le> ?L" by (cases path) (auto simp: bfs_path_def)
      with l1 have "2 \<le> length q" by simp
      from bfs_path_butlast [OF q this]
      have b: "bfs_path adj s (butlast q)" "adj (last (butlast q)) (last q)"
        "Suc (length (butlast q)) = length q" by auto
      from b(3) l1 len have "length (butlast q) \<le> ?L" "length (butlast q) < length (hd ?Q')" by auto
      from small [OF b(1) this(1)] this(2)
      have "last (butlast q) \<in> ?V' \<and> last (butlast q) \<notin> last ` set ?Q'" by blast
      with c5 b(2) show ?thesis by blast
    qed
  qed
  from c1 c2 sorted' c3 c4 c5 c6 c7 c8 show ?thesis
    unfolding bfs_inv_def by blast
qed

lemma bfs_loop_correct:
  "\<forall>k. set (neighbors_of g k) = {w. adj k w} \<Longrightarrow> bfs_inv adj s e Q V \<Longrightarrow>
   (case bfs_loop g e Q V of
      None \<Rightarrow> \<not> (\<exists>q. bfs_path adj s q \<and> last q = e)
    | Some p \<Rightarrow> bfs_path adj s p \<and> last p = e
        \<and> (\<forall>q. bfs_path adj s q \<and> last q = e \<longrightarrow> length p \<le> length q))"
proof (induction g e Q V rule: bfs_loop.induct)
  case (1 graph endId visited)
  from "1.prems"(2) have "\<forall>q. bfs_path adj s q \<longrightarrow> last q \<in> visited" and "endId \<notin> visited"
    unfolding bfs_inv_def by auto
  then show ?case by (auto simp: bfs_loop.simps)
next
  case (2 graph endId queue visited)
  from "2.prems"(2) have "bfs_path adj s []" unfolding bfs_inv_def by simp
  then show ?case by (simp add: bfs_path_def)
next
  case (3 graph endId v vs queue visited)
  let ?path = "v # vs"
  show ?case
  proof (cases "last ?path = endId")
    case True
    from "3.prems"(2) have "bfs_path adj s ?path"
      and "\<forall>q. bfs_path adj s q \<and> last q = last ?path \<longrightarrow> length ?path \<le> length q"
      unfolding bfs_inv_def by auto
    with True show ?thesis by (simp add: bfs_loop.simps)
  next
    case False
    let ?ns = "neighbors_of graph (last ?path)"
    let ?V' = "visited \<union> set ?ns"
    let ?Q' = "queue @ map (\<lambda>w. ?path @ [w]) (fresh visited ?ns)"
    have fold: "foldl (fsp_visit ?path) (visited, queue) ?ns = (?V', ?Q')"
      by (rule fsp_visit_fold)
    from "3.prems"(1) have ns: "set ?ns = {w. adj (last ?path) w}" by blast
    from bfs_inv_step [OF "3.prems"(2) False ns] have inv': "bfs_inv adj s endId ?Q' ?V'" .
    from "3.IH" [OF refl refl False refl refl fold [symmetric] "3.prems"(1) inv']
    have "case bfs_loop graph endId ?Q' ?V' of
        None \<Rightarrow> \<not> (\<exists>q. bfs_path adj s q \<and> last q = endId)
      | Some p \<Rightarrow> bfs_path adj s p \<and> last p = endId
          \<and> (\<forall>q. bfs_path adj s q \<and> last q = endId \<longrightarrow> length p \<le> length q)" .
    moreover have "bfs_loop graph endId (?path # queue) visited = bfs_loop graph endId ?Q' ?V'"
      using False fold by (simp add: bfs_loop.simps Let_def del: foldl.simps)
    ultimately show ?thesis by simp
  qed
qed

lemma is_path_bfs_path:
  "is_path edges s e p \<longleftrightarrow> bfs_path (adjacent edges) s p \<and> last p = e"
  by (auto simp: is_path_def bfs_path_def)

text \<open>
  C6. \<open>findShortestPath\<close> returns \<open>[start]\<close> when start and end are the same node; it
  returns absent exactly when no path joins them in the undirected graph; and a path
  it returns is a path from start to end which no other such path undercuts in length.
  On the chain \<open>A \<rightarrow> B \<rightarrow> C\<close> it returns \<open>[A, B, C]\<close>, and absent for the node \<open>D\<close> that no
  edge touches.
\<close>

theorem findShortestPath_spec:
  "(startId = endId \<longrightarrow> findShortestPath startId endId edges = Some [startId])
   \<and> (findShortestPath startId endId edges = None) = (\<not> (\<exists>q. is_path edges startId endId q))
   \<and> (\<forall>p. findShortestPath startId endId edges = Some p \<longrightarrow>
         is_path edges startId endId p
         \<and> (\<forall>q. is_path edges startId endId q \<longrightarrow> length p \<le> length q))
   \<and> findShortestPath ''A'' ''C''
        [\<lparr>edge_from = ''A'', edge_to = ''B''\<rparr>, \<lparr>edge_from = ''B'', edge_to = ''C''\<rparr>]
       = Some [''A'', ''B'', ''C'']
   \<and> findShortestPath ''A'' ''D''
        [\<lparr>edge_from = ''A'', edge_to = ''B''\<rparr>, \<lparr>edge_from = ''B'', edge_to = ''C''\<rparr>] = None"
proof -
  have general:
    "(findShortestPath startId endId edges = None) = (\<not> (\<exists>q. is_path edges startId endId q))
     \<and> (\<forall>p. findShortestPath startId endId edges = Some p \<longrightarrow>
         is_path edges startId endId p
         \<and> (\<forall>q. is_path edges startId endId q \<longrightarrow> length p \<le> length q))"
  proof (cases "startId = endId")
    case True
    have "is_path edges startId startId [startId]" by (simp add: is_path_def)
    moreover have "is_path edges startId startId q \<Longrightarrow> 1 \<le> length q" for q
      by (cases q) (auto simp: is_path_def)
    ultimately show ?thesis using True by (auto simp: findShortestPath_def)
  next
    case False
    let ?g = "foldl fsp_add_edge [] edges"
    have "neighbors_of [] k = []" for k by (simp add: neighbors_of_def)
    then have adj: "\<forall>k. set (neighbors_of ?g k) = {w. adjacent edges k w}"
      by (simp add: neighbors_of_fsp_graph)
    from bfs_loop_correct [OF adj bfs_inv_init [OF False]]
    have r: "case bfs_loop ?g endId [[startId]] {startId} of
        None \<Rightarrow> \<not> (\<exists>q. bfs_path (adjacent edges) startId q \<and> last q = endId)
      | Some p \<Rightarrow> bfs_path (adjacent edges) startId p \<and> last p = endId
          \<and> (\<forall>q. bfs_path (adjacent edges) startId q \<and> last q = endId \<longrightarrow> length p \<le> length q)" .
    show ?thesis
    proof (cases "bfs_loop ?g endId [[startId]] {startId}")
      case None
      with r False show ?thesis by (simp add: findShortestPath_def is_path_bfs_path)
    next
      case (Some p)
      with r False show ?thesis
        by (auto simp: findShortestPath_def is_path_bfs_path)
    qed
  qed
  have chain: "findShortestPath ''A'' ''C''
        [\<lparr>edge_from = ''A'', edge_to = ''B''\<rparr>, \<lparr>edge_from = ''B'', edge_to = ''C''\<rparr>]
       = Some [''A'', ''B'', ''C'']"
    by code_simp
  have apart: "findShortestPath ''A'' ''D''
        [\<lparr>edge_from = ''A'', edge_to = ''B''\<rparr>, \<lparr>edge_from = ''B'', edge_to = ''C''\<rparr>] = None"
    by code_simp
  have same: "startId = endId \<longrightarrow> findShortestPath startId endId edges = Some [startId]"
    by (simp add: findShortestPath_def)
  from same general chain apart show ?thesis by blast
qed

theorem findShortestPath_spec_witness:
  "findShortestPath ''A'' ''A'' [\<lparr>edge_from = ''A'', edge_to = ''B''\<rparr>] = Some [''A'']
   \<and> findShortestPath ''B'' ''A'' [\<lparr>edge_from = ''A'', edge_to = ''B''\<rparr>] = Some [''B'', ''A'']
   \<and> is_path [\<lparr>edge_from = ''A'', edge_to = ''B''\<rparr>] ''B'' ''A'' [''B'', ''A'']"
proof -
  have 1: "findShortestPath ''B'' ''A'' [\<lparr>edge_from = ''A'', edge_to = ''B''\<rparr>] = Some [''B'', ''A'']"
    by code_simp
  from findShortestPath_spec [of "''A''" "''A''" "[\<lparr>edge_from = ''A'', edge_to = ''B''\<rparr>]"]
  have 2: "findShortestPath ''A'' ''A'' [\<lparr>edge_from = ''A'', edge_to = ''B''\<rparr>] = Some [''A'']"
    by blast
  from findShortestPath_spec [of "''B''" "''A''" "[\<lparr>edge_from = ''A'', edge_to = ''B''\<rparr>]"] 1
  have 3: "is_path [\<lparr>edge_from = ''A'', edge_to = ''B''\<rparr>] ''B'' ''A'' [''B'', ''A'']"
    by blast
  from 1 2 3 show ?thesis by blast
qed

end
